theory Spec2Isabelle
  imports Main "HOL-Library.Word"
begin

unbundle bit_operations_syntax

section \<open>The Hoard-style allocator of \<^verbatim>\<open>A2/allocators/submit/malloc.c\<close>\<close>

text \<open>
  The embedding follows the C source function by function. C's \<^verbatim>\<open>size_t\<close> is a 64-bit
  word (LP64), \<^verbatim>\<open>blockptr_t\<close> (\<^verbatim>\<open>int32_t\<close>) and \<^verbatim>\<open>uint32_t\<close> are 32-bit words, and
  the \<^verbatim>\<open>int\<close> counters (size classes, loop indices, the processor and heap counts)
  are mathematical integers, taken to stay in the range of a C \<^verbatim>\<open>int\<close>.
  A failed \<^verbatim>\<open>assert\<close>, a division by zero, a read past the end of an array and a
  non-void function that ends without \<^verbatim>\<open>return\<close> are values of the type \<open>error\<close>.
\<close>

subsection \<open>Hoard parameters\<close>

type_synonym size_t = "64 word"
type_synonym blockptr_t = "32 word"
type_synonym addr = "64 word"

definition ALLOC_HOARD_FULLNESS_GROUPS :: int where
  "ALLOC_HOARD_FULLNESS_GROUPS = 4"

definition ALLOC_HOARD_SIZE_CLASS_BASE :: size_t where
  "ALLOC_HOARD_SIZE_CLASS_BASE = 2"

definition ALLOC_HOARD_SIZE_CLASS_MIN :: int where
  "ALLOC_HOARD_SIZE_CLASS_MIN = 2"

definition ALLOC_HOARD_HEAP_CPU_FACTOR :: int where
  "ALLOC_HOARD_HEAP_CPU_FACTOR = 2"

text \<open>\<^verbatim>\<open>enum E_BLOCK { BLOCK_INVALID = -1 }\<close>, stored in a \<^verbatim>\<open>blockptr_t\<close>.\<close>

definition BLOCK_INVALID :: blockptr_t where
  "BLOCK_INVALID = - 1"

datatype error = AssertionFailed | DivisionByZero | OutOfBounds | MissingReturn

subsection \<open>Hoard structures\<close>

definition NULL :: addr where
  "NULL = 0"

text \<open>
  \<^verbatim>\<open>struct SUPERBLOCK_T\<close>. The field \<open>heap\<close> is the \<^verbatim>\<open>heap_t*\<close> back-reference:
  heaps live only in the context's heap table, so the pointer is the table index.
  \<open>sb_prev\<close> and \<open>sb_next\<close> are the fields \<^verbatim>\<open>prev\<close> and \<^verbatim>\<open>next\<close>.
\<close>

record superblock_t =
  heap :: nat
  size_class :: int
  block_size :: size_t
  block_count :: size_t
  block_used :: size_t
  next_block :: blockptr_t
  next_free :: blockptr_t
  sb_prev :: addr
  sb_next :: addr

datatype mutex = Unlocked | Locked

text \<open>
  \<^verbatim>\<open>struct HEAP_T\<close>. \<open>bins\<close> is the array \<^verbatim>\<open>bins[ALLOC_HOARD_FULLNESS_GROUPS]\<close>; only
  the slots \<open>0 .. 3\<close> exist, and every read goes through \<open>heap_bins_read\<close> below.
\<close>

record heap_t =
  lock :: mutex
  index :: int
  mem_used :: size_t
  mem_allocated :: size_t
  bins :: "nat \<Rightarrow> addr"

text \<open>
  \<^verbatim>\<open>struct CONTEXT_T\<close>. \<open>heap_table\<close> is the memory that follows the context header,
  seen as consecutive \<^verbatim>\<open>heap_t\<close> slots.
\<close>

record context_t =
  blocks_base :: addr
  heap_count :: int
  heap_table :: "nat \<Rightarrow> heap_t"

text \<open>
  The memory the allocator works on: the context at \<^verbatim>\<open>dseg_lo\<close>, the superblock
  headers by address, and the bytes of the block storage.
\<close>

record state =
  ctx :: context_t
  sblock :: "addr \<Rightarrow> superblock_t"
  mem :: "addr \<Rightarrow> 8 word"

text \<open>
  Sizes of the structures on LP64 with glibc (\<^verbatim>\<open>pthread_mutex_t\<close> has 40 bytes):
  \<^verbatim>\<open>sizeof(superblock_t)\<close>, \<^verbatim>\<open>sizeof(heap_t)\<close> and \<^verbatim>\<open>sizeof(context_t)\<close>.
\<close>

definition sizeof_superblock_t :: size_t where
  "sizeof_superblock_t = 64"

definition sizeof_heap_t :: size_t where
  "sizeof_heap_t = 96"

definition sizeof_context_t :: size_t where
  "sizeof_context_t = 112"

text \<open>
  A \<^verbatim>\<open>blockptr_t\<close> read from and written to memory through a cast pointer
  (\<^verbatim>\<open>*(blockptr_t*) p\<close>): four bytes, least significant first.
\<close>

definition load32 :: "(addr \<Rightarrow> 8 word) \<Rightarrow> addr \<Rightarrow> blockptr_t" where
  "load32 m p =
     ucast (m p) OR push_bit 8 (ucast (m (p + 1))) OR
     push_bit 16 (ucast (m (p + 2))) OR push_bit 24 (ucast (m (p + 3)))"

definition store32 :: "(addr \<Rightarrow> 8 word) \<Rightarrow> addr \<Rightarrow> blockptr_t \<Rightarrow> (addr \<Rightarrow> 8 word)" where
  "store32 m p v =
     m(p := ucast v, p + 1 := ucast (drop_bit 8 v),
       p + 2 := ucast (drop_bit 16 v), p + 3 := ucast (drop_bit 24 v))"

subsection \<open>Utility functions\<close>

text \<open>
  \<^verbatim>\<open>mem_pagesize()\<close> comes from \<^verbatim>\<open>memlib.h\<close>; its value is the parameter \<open>pagesize\<close>
  of every function that uses it.
\<close>

definition util_pagealigned :: "size_t \<Rightarrow> size_t \<Rightarrow> error + size_t" where
  "util_pagealigned pagesize sz =
     (if pagesize = 0 then Inl DivisionByZero
      else let padding = sz mod pagesize;
               padding = (if padding > 0 then pagesize - padding else padding)
           in Inr (sz + padding))"

text \<open>
  The loop of \<^verbatim>\<open>util_sizeclass\<close>: while \<^verbatim>\<open>x >= BASE\<close>, divide \<^verbatim>\<open>x\<close>, multiply
  \<^verbatim>\<open>sizeunit\<close> and count. It returns the final \<^verbatim>\<open>(x, sizeunit, sizecls)\<close>.
\<close>

function sizeclass_loop :: "size_t \<Rightarrow> size_t \<Rightarrow> int \<Rightarrow> size_t \<times> size_t \<times> int" where
  "sizeclass_loop x sizeunit sizecls =
     (if x \<ge> ALLOC_HOARD_SIZE_CLASS_BASE
      then sizeclass_loop (x div ALLOC_HOARD_SIZE_CLASS_BASE)
             (sizeunit * ALLOC_HOARD_SIZE_CLASS_BASE) (sizecls + 1)
      else (x, sizeunit, sizecls))"
  by pat_completeness auto
termination
proof (relation "measure (\<lambda>(x, sizeunit, sizecls). unat x)")
  show "wf (measure (\<lambda>(x, sizeunit, sizecls). unat x))"
    by simp
next
  fix x sizeunit :: size_t and sizecls :: int
  assume "ALLOC_HOARD_SIZE_CLASS_BASE \<le> x"
  then have "2 \<le> unat x"
    by (simp add: ALLOC_HOARD_SIZE_CLASS_BASE_def word_le_nat_alt)
  then have "unat x div 2 < unat x"
    by simp
  then show "((x div ALLOC_HOARD_SIZE_CLASS_BASE, sizeunit * ALLOC_HOARD_SIZE_CLASS_BASE,
               sizecls + 1), (x, sizeunit, sizecls))
             \<in> measure (\<lambda>(x, sizeunit, sizecls). unat x)"
    by (simp add: ALLOC_HOARD_SIZE_CLASS_BASE_def unat_div)
qed

declare sizeclass_loop.simps [simp del]

definition util_sizeclass :: "size_t \<Rightarrow> int" where
  "util_sizeclass sz =
     (case sizeclass_loop sz 1 0 of
        (x, sizeunit, sizecls0) \<Rightarrow>
          let sizecls = (if sz mod sizeunit \<noteq> 0 then sizecls0 + 1 else sizecls0)
          in if sizecls < ALLOC_HOARD_SIZE_CLASS_MIN then ALLOC_HOARD_SIZE_CLASS_MIN
             else sizecls)"

subsection \<open>Superblock functions\<close>

definition superblock_size :: "size_t \<Rightarrow> size_t" where
  "superblock_size pagesize = pagesize"

text \<open>The loop of \<^verbatim>\<open>superblock_init\<close> that multiplies \<^verbatim>\<open>block_size\<close> up.\<close>

function block_size_loop :: "int \<Rightarrow> int \<Rightarrow> size_t \<Rightarrow> size_t" where
  "block_size_loop i cls bs =
     (if i < cls
      then block_size_loop (i + 1) cls (bs * ALLOC_HOARD_SIZE_CLASS_BASE)
      else bs)"
  by pat_completeness auto
termination
  by (relation "measure (\<lambda>(i, cls, bs). nat (cls - i))") auto

declare block_size_loop.simps [simp del]

definition superblock_init :: "size_t \<Rightarrow> state \<Rightarrow> addr \<Rightarrow> nat \<Rightarrow> int \<Rightarrow> error + state" where
  "superblock_init pagesize s sb hp cls =
     (let bs = block_size_loop 0 cls 1
      in if bs = 0 then Inl DivisionByZero
         else Inr (s\<lparr>sblock := (sblock s)(sb :=
                (sblock s sb)\<lparr>size_class := cls,
                  block_size := bs,
                  block_used := 0,
                  block_count := (superblock_size pagesize - sizeof_superblock_t) div bs,
                  next_block := 0,
                  next_free := BLOCK_INVALID,
                  heap := hp,
                  sb_next := NULL,
                  sb_prev := NULL\<rparr>)\<rparr>))"

text \<open>
  \<^verbatim>\<open>superblock_block_data\<close>: the comparison and the product are taken in \<^verbatim>\<open>size_t\<close>,
  to which the \<^verbatim>\<open>int32_t\<close> index is converted with its sign (\<open>scast\<close>).
\<close>

definition superblock_block_data :: "superblock_t \<Rightarrow> addr \<Rightarrow> blockptr_t \<Rightarrow> error + addr" where
  "superblock_block_data b sb blk =
     (if scast blk < block_count b
      then Inr (sb + sizeof_superblock_t + block_size b * scast blk)
      else Inl AssertionFailed)"

definition superblock_freelist_push :: "state \<Rightarrow> addr \<Rightarrow> blockptr_t \<Rightarrow> error + state" where
  "superblock_freelist_push s sb blk =
     (case superblock_block_data (sblock s sb) sb blk of
        Inl e \<Rightarrow> Inl e
      | Inr prev_free \<Rightarrow>
          Inr (s\<lparr>mem := store32 (mem s) prev_free (next_free (sblock s sb)),
                 sblock := (sblock s)(sb := (sblock s sb)\<lparr>next_free := blk\<rparr>)\<rparr>))"

definition superblock_freelist_pop :: "state \<Rightarrow> addr \<Rightarrow> error + blockptr_t \<times> state" where
  "superblock_freelist_pop s sb =
     (if next_free (sblock s sb) = BLOCK_INVALID then Inr (BLOCK_INVALID, s)
      else let blk = next_free (sblock s sb)
           in case superblock_block_data (sblock s sb) sb blk of
                Inl e \<Rightarrow> Inl e
              | Inr p \<Rightarrow>
                  Inr (blk, s\<lparr>sblock := (sblock s)(sb :=
                              (sblock s sb)\<lparr>next_free := load32 (mem s) p\<rparr>)\<rparr>))"

text \<open>\<^verbatim>\<open>sb->heap->mem_used\<close> is updated through the back-reference.\<close>

definition heap_mem_used_update :: "(size_t \<Rightarrow> size_t) \<Rightarrow> nat \<Rightarrow> state \<Rightarrow> state" where
  "heap_mem_used_update f hp s =
     s\<lparr>ctx := (ctx s)\<lparr>heap_table := (heap_table (ctx s))(hp :=
           (heap_table (ctx s) hp)\<lparr>mem_used := f (mem_used (heap_table (ctx s) hp))\<rparr>)\<rparr>\<rparr>"

definition superblock_block_allocate :: "state \<Rightarrow> addr \<Rightarrow> error + blockptr_t \<times> state" where
  "superblock_block_allocate s sb =
     (if block_used (sblock s sb) \<ge> block_count (sblock s sb) then Inr (BLOCK_INVALID, s)
      else
        let s1 = s\<lparr>sblock := (sblock s)(sb :=
                     (sblock s sb)\<lparr>block_used := block_used (sblock s sb) + 1\<rparr>)\<rparr>;
            s2 = heap_mem_used_update (\<lambda>u. u + block_size (sblock s1 sb))
                   (heap (sblock s1 sb)) s1
        in case superblock_freelist_pop s2 sb of
             Inl e \<Rightarrow> Inl e
           | Inr (blk, s3) \<Rightarrow>
               if blk \<noteq> BLOCK_INVALID then Inr (blk, s3)
               else Inr (next_block (sblock s3 sb),
                         s3\<lparr>sblock := (sblock s3)(sb :=
                              (sblock s3 sb)\<lparr>next_block := next_block (sblock s3 sb) + 1\<rparr>)\<rparr>))"

definition superblock_block_free :: "state \<Rightarrow> addr \<Rightarrow> blockptr_t \<Rightarrow> error + state" where
  "superblock_block_free s sb blk =
     (if \<not> block_used (sblock s sb) > 0 then Inl AssertionFailed
      else case superblock_freelist_push s sb blk of
             Inl e \<Rightarrow> Inl e
           | Inr s1 \<Rightarrow>
               let s2 = s1\<lparr>sblock := (sblock s1)(sb :=
                            (sblock s1 sb)\<lparr>block_used := block_used (sblock s1 sb) - 1\<rparr>)\<rparr>
               in Inr (heap_mem_used_update (\<lambda>u. u - block_size (sblock s2 sb))
                         (heap (sblock s2 sb)) s2))"

subsection \<open>Heap functions\<close>

text \<open>
  A read of \<^verbatim>\<open>heap->bins[i]\<close>. The array has \<^verbatim>\<open>ALLOC_HOARD_FULLNESS_GROUPS\<close> slots; an
  index outside them is a read past the array, which C leaves undefined.
\<close>

definition heap_bins_read :: "heap_t \<Rightarrow> int \<Rightarrow> error + addr" where
  "heap_bins_read h i =
     (if 0 \<le> i \<and> i < ALLOC_HOARD_FULLNESS_GROUPS then Inr (bins h (nat i))
      else Inl OutOfBounds)"

function heap_init_loop :: "int \<Rightarrow> heap_t \<Rightarrow> heap_t" where
  "heap_init_loop i h =
     (if i < ALLOC_HOARD_FULLNESS_GROUPS
      then heap_init_loop (i + 1) (h\<lparr>index := i, bins := (bins h)(nat i := NULL)\<rparr>)
      else h)"
  by pat_completeness auto
termination
  by (relation "measure (\<lambda>(i, h). nat (ALLOC_HOARD_FULLNESS_GROUPS - i))") auto

declare heap_init_loop.simps [simp del]

definition heap_init :: "heap_t \<Rightarrow> heap_t" where
  "heap_init h = heap_init_loop 0 (h\<lparr>lock := Unlocked, mem_used := 0, mem_allocated := 0\<rparr>)"

definition heap_full :: "heap_t \<Rightarrow> bool" where
  "heap_full h \<longleftrightarrow> mem_used h \<ge> mem_allocated h"

subsection \<open>Context functions\<close>

text \<open>\<^verbatim>\<open>getNumProcessors()\<close> comes from \<^verbatim>\<open>mm_thread.h\<close>; its value is the parameter \<open>nproc\<close>.\<close>

definition context_size :: "size_t \<Rightarrow> int \<Rightarrow> error + size_t" where
  "context_size pagesize nproc =
     util_pagealigned pagesize
       (sizeof_context_t +
        sizeof_heap_t * word_of_int nproc * word_of_int ALLOC_HOARD_HEAP_CPU_FACTOR)"

function context_init_loop :: "int \<Rightarrow> context_t \<Rightarrow> context_t" where
  "context_init_loop i c =
     (if i < heap_count c
      then context_init_loop (i + 1)
             (c\<lparr>heap_table := (heap_table c)(nat i := heap_init (heap_table c (nat i)))\<rparr>)
      else c)"
  by pat_completeness auto
termination
  by (relation "measure (\<lambda>(i, c). nat (heap_count c - i))") auto

declare context_init_loop.simps [simp del]

text \<open>\<open>base\<close> is the address of the context, the pointer \<^verbatim>\<open>ctx\<close> itself.\<close>

definition context_init :: "size_t \<Rightarrow> int \<Rightarrow> addr \<Rightarrow> context_t \<Rightarrow> error + context_t" where
  "context_init pagesize nproc base c =
     (case context_size pagesize nproc of
        Inl e \<Rightarrow> Inl e
      | Inr sz \<Rightarrow>
          let c1 = c\<lparr>blocks_base := base + sz\<rparr>;
              c2 = c1\<lparr>heap_count := nproc * ALLOC_HOARD_HEAP_CPU_FACTOR\<rparr>;
              c3 = c2\<lparr>heap_table := (heap_table c2)(0 := heap_init (heap_table c2 0))\<rparr>
          in Inr (context_init_loop 1 c3))"

text \<open>Heap pointers into the table are table indices.\<close>

definition context_globalheap :: "context_t \<Rightarrow> nat" where
  "context_globalheap c = 0"

text \<open>
  \<^verbatim>\<open>1 + (threadid % ctx->heap_count)\<close>: the \<^verbatim>\<open>int\<close> heap count is converted to
  \<^verbatim>\<open>uint32_t\<close> and the remainder and the sum are unsigned.
\<close>

definition context_heap :: "context_t \<Rightarrow> 32 word \<Rightarrow> error + nat" where
  "context_heap c threadid =
     (let n = (word_of_int (heap_count c) :: 32 word)
      in if n = 0 then Inl DivisionByZero else Inr (unat (1 + threadid mod n)))"

text \<open>
  The inner loop of \<^verbatim>\<open>context_malloc\<close> walks the \<^verbatim>\<open>next\<close> links of one bin. On a
  cyclic list without a match it does not return: the value \<open>None\<close>.
\<close>

partial_function (option) context_malloc_bin :: "(addr \<Rightarrow> superblock_t) \<Rightarrow> int \<Rightarrow> addr \<Rightarrow> addr option"
  where
  "context_malloc_bin sbs sizecls sb =
     (if sb = NULL then Some NULL
      else if size_class (sbs sb) = sizecls \<and> block_used (sbs sb) < block_count (sbs sb)
           then Some sb
           else context_malloc_bin sbs sizecls (sb_next (sbs sb)))"

text \<open>
  The outer loop \<^verbatim>\<open>for(group = ...; group >= 1; group--)\<close> from the current value
  \<open>grp\<close> of \<^verbatim>\<open>group\<close>; it returns the final \<^verbatim>\<open>sb\<close>.
\<close>

function context_malloc_scan :: "state \<Rightarrow> nat \<Rightarrow> int \<Rightarrow> int \<Rightarrow> (error + addr) option" where
  "context_malloc_scan s hp sizecls grp =
     (if grp \<ge> 1
      then case heap_bins_read (heap_table (ctx s) hp) grp of
             Inl e \<Rightarrow> Some (Inl e)
           | Inr first \<Rightarrow>
               (case context_malloc_bin (sblock s) sizecls first of
                  None \<Rightarrow> None
                | Some sb \<Rightarrow>
                    if sb \<noteq> NULL then Some (Inr sb)
                    else context_malloc_scan s hp sizecls (grp - 1))
      else Some (Inr NULL))"
  by pat_completeness auto
termination
  by (relation "measure (\<lambda>(s, hp, sizecls, grp). nat grp)") auto

declare context_malloc_scan.simps [simp del]

text \<open>
  The code of \<^verbatim>\<open>context_malloc\<close> after the scan. The two branches taken when no
  superblock was found are empty in the source, so control reaches the end of a function
  that returns \<^verbatim>\<open>void*\<close> without a \<^verbatim>\<open>return\<close>.
\<close>

definition context_malloc_finish :: "state \<Rightarrow> nat \<Rightarrow> addr \<Rightarrow> error + addr \<times> state" where
  "context_malloc_finish s glob sb =
     (if sb \<noteq> NULL
      then case superblock_block_allocate s sb of
             Inl e \<Rightarrow> Inl e
           | Inr (blk, s1) \<Rightarrow>
               (case superblock_block_data (sblock s1 sb) sb blk of
                  Inl e \<Rightarrow> Inl e
                | Inr p \<Rightarrow> Inr (p, s1))
      else if \<not> heap_full (heap_table (ctx s) glob) then Inl MissingReturn
      else Inl MissingReturn)"

definition context_malloc :: "state \<Rightarrow> nat \<Rightarrow> size_t \<Rightarrow> (error + addr \<times> state) option" where
  "context_malloc s hp sz =
     (let glob = context_globalheap (ctx s);
          sizecls = util_sizeclass sz
      in case context_malloc_scan s hp sizecls ALLOC_HOARD_FULLNESS_GROUPS of
           None \<Rightarrow> None
         | Some (Inl e) \<Rightarrow> Some (Inl e)
         | Some (Inr sb) \<Rightarrow> Some (context_malloc_finish s glob sb))"

subsection \<open>Implementation\<close>

text \<open>
  The model is sequential: a thread that locks a mutex that is already locked never
  returns.
\<close>

definition pthread_mutex_lock :: "nat \<Rightarrow> state \<Rightarrow> state option" where
  "pthread_mutex_lock hp s =
     (if lock (heap_table (ctx s) hp) = Locked then None
      else Some (s\<lparr>ctx := (ctx s)\<lparr>heap_table := (heap_table (ctx s))(hp :=
                   (heap_table (ctx s) hp)\<lparr>lock := Locked\<rparr>)\<rparr>\<rparr>))"

definition pthread_mutex_unlock :: "nat \<Rightarrow> state \<Rightarrow> state" where
  "pthread_mutex_unlock hp s =
     s\<lparr>ctx := (ctx s)\<lparr>heap_table := (heap_table (ctx s))(hp :=
          (heap_table (ctx s) hp)\<lparr>lock := Unlocked\<rparr>)\<rparr>\<rparr>"

text \<open>
  \<open>sys_malloc\<close> is the system allocator \<^verbatim>\<open>malloc\<close> and \<open>self\<close> is
  \<^verbatim>\<open>(uint32_t) pthread_self()\<close>.
\<close>

definition mm_malloc ::
  "size_t \<Rightarrow> (size_t \<Rightarrow> addr) \<Rightarrow> 32 word \<Rightarrow> state \<Rightarrow> size_t \<Rightarrow> (error + addr \<times> state) option"
  where
  "mm_malloc pagesize sys_malloc self s sz =
     (if sz > superblock_size pagesize div 2 then Some (Inr (sys_malloc sz, s))
      else case context_heap (ctx s) self of
             Inl e \<Rightarrow> Some (Inl e)
           | Inr hp \<Rightarrow>
               (case pthread_mutex_lock hp s of
                  None \<Rightarrow> None
                | Some s1 \<Rightarrow>
                    (case context_malloc s1 hp sz of
                       None \<Rightarrow> None
                     | Some (Inl e) \<Rightarrow> Some (Inl e)
                     | Some (Inr (m, s2)) \<Rightarrow> Some (Inr (m, pthread_mutex_unlock hp s2)))))"

definition mm_free :: "state \<Rightarrow> addr \<Rightarrow> state" where
  "mm_free s ptr = s"

text \<open>
  \<open>brk\<close> is what \<^verbatim>\<open>mem_sbrk(context_size())\<close> returns, \<open>NULL\<close> when the segment cannot
  be extended. \<^verbatim>\<open>mem_init\<close> belongs to the segment provider and touches none of the
  allocator's structures.
\<close>

definition mm_init :: "size_t \<Rightarrow> int \<Rightarrow> addr \<Rightarrow> state \<Rightarrow> error + int \<times> state" where
  "mm_init pagesize nproc brk s =
     (case context_size pagesize nproc of
        Inl e \<Rightarrow> Inl e
      | Inr sz \<Rightarrow>
          if brk = NULL then Inr (- 1, s)
          else case context_init pagesize nproc brk (ctx s) of
                 Inl e \<Rightarrow> Inl e
               | Inr c \<Rightarrow> Inr (0, s\<lparr>ctx := c\<rparr>))"

subsection \<open>Sequences of block operations on one superblock\<close>

text \<open>
  A client of one superblock issues \<^verbatim>\<open>superblock_block_allocate\<close> and
  \<^verbatim>\<open>superblock_block_free\<close> calls and keeps the list \<open>live\<close> of the indices it was
  given and has not freed yet. Freeing an index that is not live breaks the
  precondition of \<^verbatim>\<open>superblock_block_free\<close>: the run stops with \<open>NotLive\<close>. A fault of
  the code itself stops it with \<open>Faulted\<close>.
\<close>

datatype op = Allocate | Free blockptr_t

datatype 'a run = Finished 'a | Faulted error | NotLive

fun run_ops :: "addr \<Rightarrow> op list \<Rightarrow> state \<Rightarrow> blockptr_t list \<Rightarrow> (state \<times> blockptr_t list) run" where
  "run_ops sb [] s live = Finished (s, live)"
| "run_ops sb (Allocate # ops) s live =
     (case superblock_block_allocate s sb of
        Inl e \<Rightarrow> Faulted e
      | Inr (blk, s') \<Rightarrow> run_ops sb ops s' (if blk = BLOCK_INVALID then live else blk # live))"
| "run_ops sb (Free blk # ops) s live =
     (if blk \<notin> set live then NotLive
      else case superblock_block_free s sb blk of
             Inl e \<Rightarrow> Faulted e
           | Inr s' \<Rightarrow> run_ops sb ops s' (remove1 blk live))"

text \<open>
  The free list as the code stores it: \<open>p\<close> is the head, and the first four bytes of
  each free block hold the index of the next one; \<open>base\<close> is the address of block 0.
\<close>

fun freelist_chain :: "(addr \<Rightarrow> 8 word) \<Rightarrow> addr \<Rightarrow> size_t \<Rightarrow> blockptr_t \<Rightarrow> blockptr_t list \<Rightarrow> bool" where
  "freelist_chain m base bs p [] \<longleftrightarrow> p = BLOCK_INVALID"
| "freelist_chain m base bs p (x # xs) \<longleftrightarrow>
     p = x \<and> x \<noteq> BLOCK_INVALID \<and> freelist_chain m base bs (load32 m (base + bs * scast x)) xs"

text \<open>
  The invariant of a superblock in use, for the live indices \<open>live\<close> and the free list
  \<open>fl\<close>: blocks hold an index, the block area and the indices stay in range, the
  free list is stored correctly, live and free indices are distinct and lie below the
  watermark, and \<^verbatim>\<open>block_used\<close> counts the live ones.
\<close>

definition superblock_inv :: "state \<Rightarrow> addr \<Rightarrow> blockptr_t list \<Rightarrow> blockptr_t list \<Rightarrow> bool" where
  "superblock_inv s sb live fl \<longleftrightarrow>
     4 \<le> unat (block_size (sblock s sb)) \<and>
     unat (block_size (sblock s sb)) * unat (block_count (sblock s sb)) < 2 ^ 64 \<and>
     unat (block_count (sblock s sb)) < 2 ^ 31 \<and>
     unat (next_block (sblock s sb)) \<le> unat (block_count (sblock s sb)) \<and>
     freelist_chain (mem s) (sb + sizeof_superblock_t) (block_size (sblock s sb))
       (next_free (sblock s sb)) fl \<and>
     distinct (live @ fl) \<and>
     list_all (\<lambda>x. unat x < unat (next_block (sblock s sb))) (live @ fl) \<and>
     length live + length fl = unat (next_block (sblock s sb)) \<and>
     unat (block_used (sblock s sb)) = length live"

subsection \<open>Concrete states\<close>

text \<open>
  Zeroed memory, and states with a superblock of a 4096-byte page at address 4096 owned
  by heap 1: freshly initialised for size class 3 (\<open>example_fresh\<close>), after three
  allocations and the release of block 0 (\<open>example_reuse\<close>), initialised for size class
  11 and filled by one allocation (\<open>example_full\<close>), and fresh and linked into bin 0 of
  its heap (\<open>example_binned\<close>).
\<close>

definition heap0 :: heap_t where
  "heap0 = \<lparr>lock = Unlocked, index = 0, mem_used = 0, mem_allocated = 0, bins = (\<lambda>i. NULL)\<rparr>"

definition superblock0 :: superblock_t where
  "superblock0 = \<lparr>heap = 0, size_class = 0, block_size = 0, block_count = 0, block_used = 0,
     next_block = 0, next_free = 0, sb_prev = NULL, sb_next = NULL\<rparr>"

definition state0 :: state where
  "state0 = \<lparr>ctx = \<lparr>blocks_base = NULL, heap_count = 0, heap_table = (\<lambda>i. heap0)\<rparr>,
     sblock = (\<lambda>a. superblock0), mem = (\<lambda>a. 0)\<rparr>"

definition example_superblock :: superblock_t where
  "example_superblock = \<lparr>heap = 1, size_class = 3, block_size = 8, block_count = 504,
     block_used = 0, next_block = 0, next_free = BLOCK_INVALID, sb_prev = NULL, sb_next = NULL\<rparr>"

definition example_fresh :: state where
  "example_fresh = state0\<lparr>sblock := (sblock state0)(4096 := example_superblock)\<rparr>"

definition example_reuse :: state where
  "example_reuse =
     \<lparr>ctx = \<lparr>blocks_base = NULL, heap_count = 0,
              heap_table = (\<lambda>i. heap0)(1 := heap0\<lparr>mem_used := 16\<rparr>)\<rparr>,
      sblock = (\<lambda>a. superblock0)(4096 :=
        example_superblock\<lparr>block_used := 2, next_block := 3, next_free := 0\<rparr>),
      mem = store32 (\<lambda>a. 0) 4160 BLOCK_INVALID\<rparr>"

definition example_full :: state where
  "example_full =
     \<lparr>ctx = \<lparr>blocks_base = NULL, heap_count = 0,
              heap_table = (\<lambda>i. heap0)(1 := heap0\<lparr>mem_used := 2048\<rparr>)\<rparr>,
      sblock = (\<lambda>a. superblock0)(4096 :=
        example_superblock\<lparr>size_class := 11, block_size := 2048, block_count := 1,
          block_used := 1, next_block := 1\<rparr>),
      mem = (\<lambda>a. 0)\<rparr>"

definition example_binned :: state where
  "example_binned = example_fresh\<lparr>ctx := \<lparr>blocks_base = 4096, heap_count = 2,
     heap_table = (\<lambda>i. heap0)(1 := heap0\<lparr>mem_allocated := 4096, bins := (\<lambda>i. NULL)(0 := 4096)\<rparr>)\<rparr>\<rparr>"

section \<open>Properties\<close>

subsection \<open>The size-class mapper\<close>

lemma sizeclass_loop_inv:
  "unat u * unat x \<le> unat (s::size_t) \<Longrightarrow> unat s < unat u * (unat x + 1) \<Longrightarrow>
   unat u = 2 ^ nat c \<Longrightarrow> 0 \<le> c \<Longrightarrow> 1 \<le> unat x \<Longrightarrow>
   (case sizeclass_loop x u c of (x', u', c') \<Rightarrow>
      unat u' \<le> unat s \<and> unat s < 2 * unat u' \<and> unat u' = 2 ^ nat c' \<and> 0 \<le> c')"
proof (induction x u c rule: sizeclass_loop.induct)
  case (1 x u c)
  show ?case
  proof (cases "ALLOC_HOARD_SIZE_CLASS_BASE \<le> x")
    case True
    then have x2: "2 \<le> unat x"
      by (simp add: ALLOC_HOARD_SIZE_CLASS_BASE_def word_le_nat_alt)
    have ux: "unat (x div ALLOC_HOARD_SIZE_CLASS_BASE) = unat x div 2"
      by (simp add: ALLOC_HOARD_SIZE_CLASS_BASE_def unat_div)
    have "unat u * 2 \<le> unat u * unat x"
      using x2 by simp
    also have "\<dots> \<le> unat s"
      by (rule "1.prems"(1))
    also have "unat s < 2 ^ 64"
      using unsigned_less [of s, where ?'a = nat] by simp
    finally have small: "unat u * 2 < 2 ^ 64" .
    have uu: "unat (u * ALLOC_HOARD_SIZE_CLASS_BASE) = unat u * 2"
      using small by (simp add: ALLOC_HOARD_SIZE_CLASS_BASE_def unat_word_ariths)
    have a: "unat u * 2 * (unat x div 2) \<le> unat s"
    proof -
      have "2 * (unat x div 2) \<le> unat x" by simp
      then have "unat u * (2 * (unat x div 2)) \<le> unat u * unat x"
        by (rule mult_le_mono2)
      then have "unat u * (2 * (unat x div 2)) \<le> unat s"
        using "1.prems"(1) by (rule le_trans)
      then show ?thesis by (simp add: mult.assoc)
    qed
    have b: "unat s < unat u * 2 * (unat x div 2 + 1)"
    proof -
      have "unat x + 1 \<le> 2 * (unat x div 2 + 1)" by simp
      then have "unat u * (unat x + 1) \<le> unat u * (2 * (unat x div 2 + 1))"
        by (rule mult_le_mono2)
      with "1.prems"(2) have "unat s < unat u * (2 * (unat x div 2 + 1))"
        by (rule less_le_trans)
      then show ?thesis by (simp add: mult.assoc)
    qed
    have c: "unat u * 2 = 2 ^ nat (c + 1)"
      using "1.prems"(3,4) by (simp add: nat_add_distrib)
    have d: "1 \<le> unat x div 2"
      using x2 by simp
    have "case sizeclass_loop (x div ALLOC_HOARD_SIZE_CLASS_BASE)
                 (u * ALLOC_HOARD_SIZE_CLASS_BASE) (c + 1) of
            (x', u', c') \<Rightarrow>
              unat u' \<le> unat s \<and> unat s < 2 * unat u' \<and> unat u' = 2 ^ nat c' \<and> 0 \<le> c'"
      using "1.IH" [OF True] a b c d "1.prems"(4) by (simp add: ux uu)
    then show ?thesis
      using True by (simp add: sizeclass_loop.simps [of x u c])
  next
    case False
    then have "unat x < 2"
      by (simp add: ALLOC_HOARD_SIZE_CLASS_BASE_def word_le_nat_alt)
    with "1.prems"(5) have "unat x = 1" by simp
    with "1.prems" False show ?thesis by (simp add: sizeclass_loop.simps [of x u c])
  qed
qed

lemma util_sizeclass_char:
  "2 \<le> util_sizeclass s \<and> unat s \<le> 2 ^ nat (util_sizeclass s) \<and>
   (2 < util_sizeclass s \<longrightarrow> 2 ^ nat (util_sizeclass s - 1) < unat s)"
proof (cases "s = 0")
  case True
  then show ?thesis
    by (simp add: util_sizeclass_def sizeclass_loop.simps ALLOC_HOARD_SIZE_CLASS_BASE_def
        ALLOC_HOARD_SIZE_CLASS_MIN_def)
next
  case False
  then have pos: "1 \<le> unat s"
    by (simp add: unat_gt_0 Suc_le_eq)
  obtain x u c where loop: "sizeclass_loop s 1 0 = (x, u, c)"
    by (cases "sizeclass_loop s 1 0") auto
  have "case sizeclass_loop s 1 0 of (x', u', c') \<Rightarrow>
          unat u' \<le> unat s \<and> unat s < 2 * unat u' \<and> unat u' = 2 ^ nat c' \<and> 0 \<le> c'"
    by (rule sizeclass_loop_inv) (use pos in simp_all)
  then have lo: "unat u \<le> unat s" and hi: "unat s < 2 * unat u"
    and pow: "unat u = 2 ^ nat c" and c0: "0 \<le> c"
    by (simp_all add: loop)
  have upos: "0 < unat u"
    using pow by simp
  have "unat (s mod u) = unat s mod unat u"
    by (rule unat_mod)
  also have "\<dots> = unat s - unat u"
    using lo hi upos by (simp add: mod_if)
  finally have rem: "s mod u \<noteq> 0 \<longleftrightarrow> unat s \<noteq> unat u"
    using lo by (auto simp: unat_eq_0 [symmetric])
  show ?thesis
  proof (cases "unat s = unat u")
    case True
    then have cls: "util_sizeclass s = (if c < 2 then 2 else c)"
      using rem by (simp add: util_sizeclass_def loop ALLOC_HOARD_SIZE_CLASS_MIN_def)
    have "(2::nat) ^ nat (c - 1) < 2 ^ nat c" if "2 < c"
      using that by simp
    moreover have "(2::nat) ^ nat c \<le> 2 ^ nat 2" if "c < 2"
      using that by (intro power_increasing) simp_all
    ultimately show ?thesis
      using True pow by (auto simp: cls)
  next
    case False
    then have cls: "util_sizeclass s = (if c + 1 < 2 then 2 else c + 1)"
      using rem by (simp add: util_sizeclass_def loop ALLOC_HOARD_SIZE_CLASS_MIN_def)
    have up: "unat s \<le> 2 ^ nat (c + 1)"
      using hi pow c0 by (simp add: nat_add_distrib)
    have "(2::nat) ^ nat (c + 1) \<le> 2 ^ nat 2" if "c + 1 < 2"
      using that by (intro power_increasing) simp_all
    with up have "unat s \<le> 2 ^ nat 2" if "c + 1 < 2"
      using that by (meson le_trans)
    moreover have "2 ^ nat c < unat s"
      using lo False pow by simp
    ultimately show ?thesis
      using up by (auto simp: cls)
  qed
qed

lemma util_sizeclass_minimal:
  "2 \<le> c' \<Longrightarrow> unat s \<le> 2 ^ nat c' \<Longrightarrow> util_sizeclass s \<le> c'"
proof (rule ccontr)
  assume c': "2 \<le> c'" and fits: "unat s \<le> 2 ^ nat c'" and "\<not> util_sizeclass s \<le> c'"
  then have gt: "c' < util_sizeclass s" by simp
  with c' have "2 < util_sizeclass s" by simp
  then have "2 ^ nat (util_sizeclass s - 1) < unat s"
    using util_sizeclass_char [of s] by simp
  moreover have "(2::nat) ^ nat c' \<le> 2 ^ nat (util_sizeclass s - 1)"
    using gt by (intro power_increasing) simp_all
  ultimately show False
    using fits by simp
qed

lemma util_sizeclass_mono:
  "s \<le> t \<Longrightarrow> util_sizeclass s \<le> util_sizeclass t"
proof -
  assume "s \<le> t"
  then have "unat s \<le> unat t"
    by (simp add: word_le_nat_alt)
  also have "\<dots> \<le> 2 ^ nat (util_sizeclass t)"
    using util_sizeclass_char [of t] by simp
  finally show ?thesis
    using util_sizeclass_char [of t] by (intro util_sizeclass_minimal) simp_all
qed

lemma util_sizeclass_5: "util_sizeclass 5 = 3"
  by code_simp

lemma util_sizeclass_1: "util_sizeclass 1 = 2"
  by code_simp

subsection \<open>Block storage\<close>

lemma word32_bytes_join:
  "(ucast (ucast v :: 8 word) OR push_bit 8 (ucast (ucast (drop_bit 8 v) :: 8 word)) OR
    push_bit 16 (ucast (ucast (drop_bit 16 v) :: 8 word)) OR
    push_bit 24 (ucast (ucast (drop_bit 24 v) :: 8 word))) = (v :: 32 word)"
proof (rule bit_word_eqI)
  fix n :: nat
  assume "n < LENGTH(32)"
  then have n: "n < 32" by simp
  consider "n < 8" | "8 \<le> n" "n < 16" | "16 \<le> n" "n < 24" | "24 \<le> n"
    by linarith
  then show "bit (ucast (ucast v :: 8 word) OR push_bit 8 (ucast (ucast (drop_bit 8 v) :: 8 word)) OR
    push_bit 16 (ucast (ucast (drop_bit 16 v) :: 8 word)) OR
    push_bit 24 (ucast (ucast (drop_bit 24 v) :: 8 word)) :: 32 word) n = bit v n"
    using n by cases (auto simp add: bit_simps)
qed

lemma addr_succ_neq:
  "(p :: addr) + 1 \<noteq> p" "p + 2 \<noteq> p" "p + 3 \<noteq> p" "p + 2 \<noteq> p + 1" "p + 3 \<noteq> p + 1" "p + 3 \<noteq> p + 2"
  "p \<noteq> p + 1" "p \<noteq> p + 2" "p \<noteq> p + 3" "p + 1 \<noteq> p + 2" "p + 1 \<noteq> p + 3" "p + 2 \<noteq> p + 3"
  by simp_all

lemma load32_store32_same: "load32 (store32 m p v) p = v"
  by (simp add: load32_def store32_def addr_succ_neq word32_bytes_join)

lemma scast_nonneg:
  assumes "unat (x :: 32 word) < 2 ^ 31"
  shows "(scast x :: 64 word) = ucast x"
proof -
  have "int (unat x) < int (2 ^ 31)"
    using assms by (simp only: of_nat_less_iff)
  then have small: "uint x < 2 ^ 31"
    by simp
  have "- (2 ^ 31) \<le> uint x"
    by (rule order_trans [of _ 0]) simp_all
  then have "sint x = uint x"
    using small by (simp add: sint_uint signed_take_bit_int_eq_self)
  then have "(scast x :: 64 word) = word_of_int (uint x)"
    by (simp add: scast_eq)
  also have "\<dots> = ucast x"
    by simp
  finally show ?thesis .
qed

lemma of_nat_addr_inj:
  "m < 2 ^ 64 \<Longrightarrow> n < 2 ^ 64 \<Longrightarrow> (of_nat m :: addr) = of_nat n \<Longrightarrow> m = n"
  by (simp add: word_of_nat_eq_iff take_bit_nat_eq_self)

lemma addr_cells_apart:
  assumes "m + 4 \<le> n" "n + 4 \<le> 2 ^ 64" "i < 4" "j < 4"
  shows "(base :: addr) + of_nat m + of_nat i \<noteq> base + of_nat n + of_nat j"
proof
  assume "base + of_nat m + of_nat i = base + of_nat n + of_nat j"
  then have "(of_nat (m + i) :: addr) = of_nat (n + j)"
    by (simp add: add.assoc)
  moreover have "m + i < 2 ^ 64" "n + j < 2 ^ 64"
    using assms by simp_all
  ultimately have "m + i = n + j"
    by (rule of_nat_addr_inj [rotated 2])
  with assms show False by simp
qed

lemma load32_store32_other:
  assumes "m + 4 \<le> n \<or> n + 4 \<le> m" "m + 4 \<le> 2 ^ 64" "n + 4 \<le> 2 ^ 64"
  shows "load32 (store32 mm (base + of_nat m) v) (base + of_nat n) = load32 mm (base + of_nat n)"
proof -
  have ne: "(base :: addr) + of_nat n + of_nat j \<noteq> base + of_nat m + of_nat i"
    if "i < 4" "j < 4" for i j
  proof (cases "m + 4 \<le> n")
    case True
    then show ?thesis
      using addr_cells_apart [of m n i j base] assms that by metis
  next
    case False
    with assms have "n + 4 \<le> m" by simp
    then show ?thesis
      using addr_cells_apart [of n m j i base] assms that by metis
  qed
  note ne' = ne [of 0 0, simplified] ne [of 0 1, simplified] ne [of 0 2, simplified]
    ne [of 0 3, simplified] ne [of 1 0, simplified] ne [of 1 1, simplified]
    ne [of 1 2, simplified] ne [of 1 3, simplified] ne [of 2 0, simplified]
    ne [of 2 1, simplified] ne [of 2 2, simplified] ne [of 2 3, simplified]
    ne [of 3 0, simplified] ne [of 3 1, simplified] ne [of 3 2, simplified]
    ne [of 3 3, simplified]
  show ?thesis
    by (simp add: load32_def store32_def ne')
qed

subsection \<open>Effects of the block operations\<close>

lemma heap_mem_used_update_sblock [simp]: "sblock (heap_mem_used_update f hp s) = sblock s"
  by (simp add: heap_mem_used_update_def)

lemma heap_mem_used_update_mem [simp]: "mem (heap_mem_used_update f hp s) = mem s"
  by (simp add: heap_mem_used_update_def)

lemma heap_mem_used_update_mem_used [simp]:
  "mem_used (heap_table (ctx (heap_mem_used_update f hp s)) hp) = f (mem_used (heap_table (ctx s) hp))"
  by (simp add: heap_mem_used_update_def)

lemma scast_less_iff:
  assumes "unat (x :: 32 word) < 2 ^ 31"
  shows "(scast x :: 64 word) < c \<longleftrightarrow> unat x < unat c"
proof -
  have "unat x < 2 ^ 64"
    using assms by simp
  then have "unat (ucast x :: 64 word) = unat x"
    by (simp add: unsigned_ucast_eq take_bit_nat_eq_self)
  then show ?thesis
    by (simp add: scast_nonneg [OF assms] word_less_nat_alt)
qed

lemma block_index_valid:
  "unat (x :: 32 word) < 2 ^ 31 \<Longrightarrow> x \<noteq> BLOCK_INVALID"
  by (auto simp: BLOCK_INVALID_def unsigned_minus_1_eq_mask mask_eq_exp_minus_1)

text \<open>What a successful \<open>superblock_block_allocate\<close> does, by the state of the free list.\<close>

lemma superblock_block_allocate_at_capacity:
  "block_count (sblock s sb) \<le> block_used (sblock s sb) \<Longrightarrow>
   superblock_block_allocate s sb = Inr (BLOCK_INVALID, s)"
  by (simp add: superblock_block_allocate_def)

lemma superblock_block_allocate_reuse:
  assumes "block_used (sblock s sb) < block_count (sblock s sb)"
    and "next_free (sblock s sb) \<noteq> BLOCK_INVALID"
    and "scast (next_free (sblock s sb)) < block_count (sblock s sb)"
  shows "\<exists>s'. superblock_block_allocate s sb = Inr (next_free (sblock s sb), s') \<and>
     sblock s' = (sblock s)(sb := (sblock s sb)
       \<lparr>block_used := block_used (sblock s sb) + 1,
        next_free := load32 (mem s) (sb + sizeof_superblock_t +
           block_size (sblock s sb) * scast (next_free (sblock s sb)))\<rparr>) \<and>
     mem s' = mem s \<and>
     ctx s' = ctx (heap_mem_used_update (\<lambda>u. u + block_size (sblock s sb)) (heap (sblock s sb)) s)"
  using assms
  by (simp add: superblock_block_allocate_def superblock_freelist_pop_def
      superblock_block_data_def Let_def heap_mem_used_update_def not_le [symmetric])

lemma superblock_block_allocate_fresh:
  assumes "block_used (sblock s sb) < block_count (sblock s sb)"
    and "next_free (sblock s sb) = BLOCK_INVALID"
  shows "\<exists>s'. superblock_block_allocate s sb = Inr (next_block (sblock s sb), s') \<and>
     sblock s' = (sblock s)(sb := (sblock s sb)
       \<lparr>block_used := block_used (sblock s sb) + 1,
        next_block := next_block (sblock s sb) + 1\<rparr>) \<and>
     mem s' = mem s \<and>
     ctx s' = ctx (heap_mem_used_update (\<lambda>u. u + block_size (sblock s sb)) (heap (sblock s sb)) s)"
  using assms
  by (simp add: superblock_block_allocate_def superblock_freelist_pop_def
      Let_def heap_mem_used_update_def not_le [symmetric])

lemma superblock_block_free_effect:
  assumes "0 < block_used (sblock s sb)"
    and "scast blk < block_count (sblock s sb)"
  shows "\<exists>s'. superblock_block_free s sb blk = Inr s' \<and>
     sblock s' = (sblock s)(sb := (sblock s sb)
       \<lparr>next_free := blk, block_used := block_used (sblock s sb) - 1\<rparr>) \<and>
     mem s' = store32 (mem s) (sb + sizeof_superblock_t + block_size (sblock s sb) * scast blk)
                (next_free (sblock s sb)) \<and>
     ctx s' = ctx (heap_mem_used_update (\<lambda>u. u - block_size (sblock s sb)) (heap (sblock s sb)) s)"
  using assms
  by (simp add: superblock_block_free_def superblock_freelist_push_def
      superblock_block_data_def Let_def heap_mem_used_update_def)

text \<open>Each operation on its own keeps \<^verbatim>\<open>block_used\<close> within \<^verbatim>\<open>block_count\<close>.\<close>

lemma superblock_block_allocate_bound:
  assumes "block_used (sblock s sb) \<le> block_count (sblock s sb)"
    and "superblock_block_allocate s sb = Inr (blk, s')"
  shows "block_used (sblock s' sb) \<le> block_count (sblock s' sb)"
proof (cases "block_used (sblock s sb) < block_count (sblock s sb)")
  case False
  with assms show ?thesis
    by (simp add: superblock_block_allocate_def not_less)
next
  case True
  then have "unat (block_used (sblock s sb)) < unat (block_count (sblock s sb))"
    by (simp add: word_less_nat_alt)
  moreover have "unat (block_count (sblock s sb)) < 2 ^ 64"
    using unsigned_less [of "block_count (sblock s sb)", where ?'a = nat] by simp
  ultimately have "unat (block_used (sblock s sb) + 1) \<le> unat (block_count (sblock s sb))"
    by (simp add: unat_word_ariths)
  then have le: "block_used (sblock s sb) + 1 \<le> block_count (sblock s sb)"
    by (simp add: word_le_nat_alt)
  from assms(2) True show ?thesis
    by (auto simp: superblock_block_allocate_def superblock_freelist_pop_def Let_def le
        not_le [symmetric] split: if_splits sum.splits)
qed

lemma superblock_block_free_bound:
  assumes "block_used (sblock s sb) \<le> block_count (sblock s sb)"
    and "superblock_block_free s sb blk = Inr s'"
  shows "block_used (sblock s' sb) \<le> block_count (sblock s' sb)"
proof -
  from assms(2) have pos: "0 < block_used (sblock s sb)"
    by (auto simp: superblock_block_free_def split: if_splits)
  then have "unat (block_used (sblock s sb) - 1) = unat (block_used (sblock s sb)) - 1"
    by (simp add: unat_minus_one word_neq_0_conv)
  moreover have "unat (block_used (sblock s sb)) \<le> unat (block_count (sblock s sb))"
    using assms(1) by (simp add: word_le_nat_alt)
  ultimately have le: "block_used (sblock s sb) - 1 \<le> block_count (sblock s sb)"
    by (simp add: word_le_nat_alt)
  from assms(2) pos show ?thesis
    by (auto simp: superblock_block_free_def superblock_freelist_push_def Let_def le
        split: if_splits sum.splits)
qed

subsection \<open>The superblock invariant\<close>

lemma block_offset_nat:
  assumes "unat (x :: 32 word) < 2 ^ 31"
  shows "(bs :: size_t) * scast x = of_nat (unat bs * unat x)"
proof -
  have "of_nat (unat bs * unat x) = (of_nat (unat bs) :: size_t) * of_nat (unat x)"
    by (simp only: of_nat_mult)
  also have "\<dots> = bs * ucast x"
    by simp
  finally show ?thesis
    by (simp add: scast_nonneg [OF assms])
qed

lemma block_cells_bound:
  fixes b i n :: nat
  assumes "i < n" "4 \<le> b" "b * n < 2 ^ 64"
  shows "b * i + 4 \<le> 2 ^ 64"
proof -
  have "b * i + 4 \<le> b * i + b"
    using assms by simp
  also have "\<dots> = b * (i + 1)"
    by simp
  also have "\<dots> \<le> b * n"
    using assms by (intro mult_le_mono2) simp
  finally show ?thesis
    using assms by simp
qed

lemma block_cells_ordered:
  fixes b i j :: nat
  assumes "i < j" "4 \<le> b"
  shows "b * i + 4 \<le> b * j"
proof -
  have "b * i + 4 \<le> b * i + b"
    using assms by simp
  also have "\<dots> = b * (i + 1)"
    by simp
  also have "\<dots> \<le> b * j"
    using assms by (intro mult_le_mono2) simp
  finally show ?thesis .
qed

lemma load32_store32_other_block:
  assumes "(x :: blockptr_t) \<noteq> y" "unat x < n" "unat y < n" "n < 2 ^ 31"
    "4 \<le> unat bs" "unat bs * n < 2 ^ 64"
  shows "load32 (store32 m (base + bs * scast x) v) (base + bs * scast y) =
         load32 m (base + bs * scast y)"
proof -
  have x31: "unat x < 2 ^ 31" and y31: "unat y < 2 ^ 31"
    using assms by simp_all
  have "unat x \<noteq> unat y"
    using assms(1) by (simp add: word_unat_eq_iff)
  then have "unat x < unat y \<or> unat y < unat x"
    by linarith
  then have apart: "unat bs * unat x + 4 \<le> unat bs * unat y \<or>
      unat bs * unat y + 4 \<le> unat bs * unat x"
    using block_cells_ordered [of "unat x" "unat y" "unat bs"]
      block_cells_ordered [of "unat y" "unat x" "unat bs"] assms(5) by blast
  have bx: "unat bs * unat x + 4 \<le> 2 ^ 64"
    using assms by (intro block_cells_bound [of _ n]) simp_all
  have "unat bs * unat y + 4 \<le> 2 ^ 64"
    using assms by (intro block_cells_bound [of _ n]) simp_all
  with apart bx show ?thesis
    unfolding block_offset_nat [OF x31] block_offset_nat [OF y31]
    by (rule load32_store32_other)
qed

lemma freelist_chain_store32:
  assumes "freelist_chain m base bs p fl" "(x :: blockptr_t) \<notin> set fl"
    "list_all (\<lambda>y. unat y < n) fl"
    "unat x < n" "n < 2 ^ 31" "4 \<le> unat bs" "unat bs * n < 2 ^ 64"
  shows "freelist_chain (store32 m (base + bs * scast x) v) base bs p fl"
  using assms(1-3)
proof (induction fl arbitrary: p)
  case Nil
  then show ?case by simp
next
  case (Cons y ys)
  have "load32 (store32 m (base + bs * scast x) v) (base + bs * scast y) =
        load32 m (base + bs * scast y)"
    using Cons.prems assms(4-7) by (intro load32_store32_other_block [of _ _ n]) auto
  with Cons show ?case
    by simp
qed

lemma superblock_block_allocate_inv:
  assumes inv: "superblock_inv s sb live fl"
  shows "\<exists>blk s'. superblock_block_allocate s sb = Inr (blk, s') \<and>
     block_count (sblock s' sb) = block_count (sblock s sb) \<and>
     (if blk = BLOCK_INVALID then s' = s
      else \<exists>fl'. superblock_inv s' sb (blk # live) fl')"
proof (cases "block_used (sblock s sb) < block_count (sblock s sb)")
  case False
  then show ?thesis
    using superblock_block_allocate_at_capacity [of s sb] by simp
next
  case True
  define b where "b = sblock s sb"
  note I = inv [unfolded superblock_inv_def, folded b_def]
  have room: "length live < unat (block_count b)"
    using True I by (simp add: b_def word_less_nat_alt)
  have used1: "unat (block_used b + 1) = length live + 1"
  proof -
    have "unat (block_used b) + 1 < 2 ^ 64"
      using room I by simp
    then show ?thesis
      using I by (simp add: unat_word_ariths)
  qed
  show ?thesis
  proof (cases fl)
    case Nil
    then have nf: "next_free b = BLOCK_INVALID"
      using I by simp
    have nb: "unat (next_block b) = length live"
      using I Nil by simp
    then have nb31: "unat (next_block b) < 2 ^ 31"
      using room I by simp
    have nb1: "unat (next_block b + 1) = length live + 1"
    proof -
      have "unat (next_block b) + 1 < 2 ^ 32"
        using nb31 by simp
      then show ?thesis
        using nb by (simp add: unat_word_ariths)
    qed
    obtain s' where alloc: "superblock_block_allocate s sb = Inr (next_block b, s')"
      and sb': "sblock s' = (sblock s)(sb := b\<lparr>block_used := block_used b + 1,
                  next_block := next_block b + 1\<rparr>)"
      and mem': "mem s' = mem s"
      using superblock_block_allocate_fresh [of s sb] True nf by (auto simp: b_def)
    have "next_block b \<notin> set live"
      using I by (auto simp: list_all_iff)
    moreover have "list_all (\<lambda>x. unat x < length live + 1) live"
      using I nb by (auto simp: list_all_iff intro: less_SucI)
    ultimately have "superblock_inv s' sb (next_block b # live) []"
      using I Nil nb room used1 nb1 by (simp add: superblock_inv_def sb' mem')
    moreover have "next_block b \<noteq> BLOCK_INVALID"
      using nb31 by (rule block_index_valid)
    ultimately show ?thesis
      using alloc by (auto simp: sb' b_def)
  next
    case (Cons x xs)
    then have nf: "next_free b = x" and valid: "x \<noteq> BLOCK_INVALID"
      and chain: "freelist_chain (mem s) (sb + sizeof_superblock_t) (block_size b)
                    (load32 (mem s) (sb + sizeof_superblock_t + block_size b * scast x)) xs"
      using I by simp_all
    have xnb: "unat x < unat (next_block b)"
      using I Cons by (simp add: list_all_iff)
    then have x31: "unat x < 2 ^ 31"
      using I by simp
    have "scast x < block_count b"
      using xnb I by (simp add: scast_less_iff [OF x31])
    then obtain s' where alloc: "superblock_block_allocate s sb = Inr (x, s')"
      and sb': "sblock s' = (sblock s)(sb := b\<lparr>block_used := block_used b + 1,
                  next_free := load32 (mem s) (sb + sizeof_superblock_t +
                     block_size b * scast x)\<rparr>)"
      and mem': "mem s' = mem s"
      using superblock_block_allocate_reuse [of s sb] True nf valid by (auto simp: b_def)
    have "superblock_inv s' sb (x # live) xs"
      using I Cons chain used1 by (auto simp: superblock_inv_def sb' mem')
    then show ?thesis
      using alloc valid by (auto simp: sb' b_def)
  qed
qed

lemma superblock_block_free_inv:
  assumes inv: "superblock_inv s sb live fl" and live: "x \<in> set live"
  shows "\<exists>s'. superblock_block_free s sb x = Inr s' \<and>
     block_count (sblock s' sb) = block_count (sblock s sb) \<and>
     superblock_inv s' sb (remove1 x live) (x # fl)"
proof -
  define b where "b = sblock s sb"
  note I = inv [unfolded superblock_inv_def, folded b_def]
  have xnb: "unat x < unat (next_block b)"
    using I live by (simp add: list_all_iff)
  then have x31: "unat x < 2 ^ 31"
    using I by simp
  have xbc: "scast x < block_count b"
    using xnb I by (simp add: scast_less_iff [OF x31])
  have pos: "0 < length live"
    using live by (cases live) auto
  then have used: "0 < block_used b"
    using I by (simp add: word_less_nat_alt)
  have used1: "unat (block_used b - 1) = length live - 1"
    using used I by (simp add: unat_minus_one word_neq_0_conv)
  obtain s' where free: "superblock_block_free s sb x = Inr s'"
    and sb': "sblock s' = (sblock s)(sb := b\<lparr>next_free := x,
                block_used := block_used b - 1\<rparr>)"
    and mem': "mem s' = store32 (mem s) (sb + sizeof_superblock_t + block_size b * scast x)
                 (next_free b)"
    using superblock_block_free_effect [of s sb x] used xbc by (auto simp: b_def)
  have xfl: "x \<notin> set fl"
    using I live by auto
  have chain: "freelist_chain (mem s') (sb + sizeof_superblock_t) (block_size b) (next_free b) fl"
    unfolding mem'
  proof (rule freelist_chain_store32 [where n = "unat (next_block b)"])
    show "unat (block_size b) * unat (next_block b) < 2 ^ 64"
    proof -
      have "unat (block_size b) * unat (next_block b) \<le>
            unat (block_size b) * unat (block_count b)"
        using I by (intro mult_le_mono2) simp
      also have "\<dots> < 2 ^ 64"
        using I by simp
      finally show ?thesis .
    qed
  qed (use I xfl xnb in simp_all)
  have d: "distinct (remove1 x live @ x # fl)"
    using I live by (auto dest: notin_set_remove1)
  have l: "list_all (\<lambda>y. unat y < unat (next_block b)) (remove1 x live @ x # fl)"
    using I xnb by (auto simp: list_all_iff dest: notin_set_remove1)
  obtain k where k: "length live = Suc k"
    using live by (cases live) auto
  have n: "length (remove1 x live) + length (x # fl) = unat (next_block b)"
    using I live k by (simp add: length_remove1)
  have "superblock_inv s' sb (remove1 x live) (x # fl)"
    using I chain d l n used1 block_index_valid [OF x31] live
    by (simp add: superblock_inv_def sb' load32_store32_same length_remove1)
      (simp add: mem' load32_store32_same)
  then show ?thesis
    using free by (auto simp: sb' b_def)
qed

lemma block_size_loop_eq:
  "i \<le> cls \<Longrightarrow> block_size_loop i cls bs = bs * 2 ^ nat (cls - i)"
proof (induction i cls bs rule: block_size_loop.induct)
  case (1 i cls bs)
  show ?case
  proof (cases "i < cls")
    case True
    then have "nat (cls - i) = Suc (nat (cls - (i + 1)))"
      by simp
    then show ?thesis
      using True "1.IH"
      by (simp add: block_size_loop.simps [of i cls bs] ALLOC_HOARD_SIZE_CLASS_BASE_def)
  next
    case False
    with "1.prems" show ?thesis
      by (subst block_size_loop.simps) simp
  qed
qed

lemma unat_size_t_power:
  assumes "n < 64"
  shows "unat (2 ^ n :: size_t) = 2 ^ n"
proof -
  have "(2 :: nat) ^ n < 2 ^ 64"
    using assms by (intro power_strict_increasing) simp_all
  moreover have "(2 ^ n :: size_t) = of_nat (2 ^ n)"
    by simp
  ultimately show ?thesis
    by (simp only: unat_of_nat) simp
qed

lemma superblock_init_fields:
  assumes "superblock_init pagesize s0 sb hp cls = Inr s1"
  shows "block_used (sblock s1 sb) = 0" "next_block (sblock s1 sb) = 0"
    "next_free (sblock s1 sb) = BLOCK_INVALID" "block_size (sblock s1 sb) \<noteq> 0"
    "block_count (sblock s1 sb) =
       (superblock_size pagesize - sizeof_superblock_t) div block_size (sblock s1 sb)"
    "block_size (sblock s1 sb) = block_size_loop 0 cls 1" "mem s1 = mem s0"
  using assms by (auto simp: superblock_init_def Let_def split: if_splits)

lemma superblock_init_block_size:
  assumes init: "superblock_init pagesize s0 sb hp cls = Inr s1"
    and cls: "2 \<le> cls"
  shows "4 \<le> unat (block_size (sblock s1 sb))"
proof -
  define bs where "bs = block_size (sblock s1 sb)"
  have bs_pow: "bs = 2 ^ nat cls"
    using cls superblock_init_fields(6) [OF init] by (simp add: bs_def block_size_loop_eq)
  have "bs \<noteq> 0"
    using superblock_init_fields(4) [OF init] by (simp add: bs_def)
  then have "nat cls < 64"
    by (simp add: bs_pow exp_eq_zero_iff)
  then have ubs: "unat bs = 2 ^ nat cls"
    unfolding bs_pow by (rule unat_size_t_power)
  have "(2 :: nat) ^ 2 \<le> 2 ^ nat cls"
    using cls by (intro power_increasing) simp_all
  then show ?thesis
    by (simp add: ubs bs_def [symmetric])
qed

lemma superblock_init_block_area:
  assumes init: "superblock_init pagesize s0 sb hp cls = Inr s1"
  shows "unat (block_size (sblock s1 sb)) * unat (block_count (sblock s1 sb)) \<le>
         unat (superblock_size pagesize - sizeof_superblock_t)"
proof -
  have "unat (block_count (sblock s1 sb)) =
        unat (superblock_size pagesize - sizeof_superblock_t) div
        unat (block_size (sblock s1 sb))"
    by (simp add: superblock_init_fields(5) [OF init] unat_div)
  then show ?thesis
    by simp
qed

text \<open>
  In a page of at most \<open>2 ^ 32\<close> bytes that holds the header, the block indices of a
  size class of at least 2 fit the 32-bit signed \<^verbatim>\<open>blockptr_t\<close>.
\<close>

lemma superblock_init_block_count:
  assumes init: "superblock_init pagesize s0 sb hp cls = Inr s1"
    and cls: "2 \<le> cls"
    and lo: "sizeof_superblock_t \<le> pagesize"
    and hi: "pagesize \<le> 2 ^ 32"
  shows "block_count (sblock s1 sb) < 2 ^ 31"
proof -
  define bs where "bs = block_size (sblock s1 sb)"
  define room where "room = pagesize - sizeof_superblock_t"
  have bs4: "4 \<le> unat bs"
    using init cls unfolding bs_def by (rule superblock_init_block_size)
  have "unat room = unat pagesize - unat sizeof_superblock_t"
    unfolding room_def using lo by (rule unat_sub)
  moreover have "unat pagesize \<le> 2 ^ 32"
    using hi by (simp add: word_le_nat_alt)
  ultimately have room32: "unat room \<le> 2 ^ 32"
    by simp
  have "unat (block_count (sblock s1 sb)) = unat room div unat bs"
    by (simp add: superblock_init_fields(5) [OF init] unat_div room_def bs_def
        superblock_size_def)
  also have "\<dots> \<le> unat room div 4"
    using bs4 by (intro div_le_mono2) simp_all
  also have "\<dots> \<le> 2 ^ 32 div 4"
    using room32 by (rule div_le_mono)
  finally show ?thesis
    by (simp add: word_less_nat_alt)
qed

lemma superblock_init_inv:
  assumes init: "superblock_init pagesize s0 sb hp cls = Inr s1"
    and cls: "2 \<le> cls"
    and bc: "block_count (sblock s1 sb) < 2 ^ 31"
  shows "superblock_inv s1 sb [] []"
proof -
  have bs4: "4 \<le> unat (block_size (sblock s1 sb))"
    using init cls by (rule superblock_init_block_size)
  have "unat (block_size (sblock s1 sb)) * unat (block_count (sblock s1 sb)) \<le>
        unat (superblock_size pagesize - sizeof_superblock_t)"
    using init by (rule superblock_init_block_area)
  also have "\<dots> < 2 ^ 64"
    using unsigned_less [of "superblock_size pagesize - sizeof_superblock_t", where ?'a = nat]
    by simp
  finally have prod:
    "unat (block_size (sblock s1 sb)) * unat (block_count (sblock s1 sb)) < 2 ^ 64" .
  have bc31: "unat (block_count (sblock s1 sb)) < 2 ^ 31"
    using bc by (simp add: word_less_nat_alt)
  show ?thesis
    using bs4 prod bc31 by (simp add: superblock_inv_def superblock_init_fields [OF init])
qed

lemma run_ops_inv:
  "superblock_inv s sb live fl \<Longrightarrow> run_ops sb ops s live \<noteq> NotLive \<Longrightarrow>
   \<exists>s' live' fl'. run_ops sb ops s live = Finished (s', live') \<and>
     superblock_inv s' sb live' fl' \<and>
     block_count (sblock s' sb) = block_count (sblock s sb)"
proof (induction ops arbitrary: s live fl)
  case Nil
  then show ?case by auto
next
  case (Cons a ops)
  show ?case
  proof (cases a)
    case Allocate
    obtain blk s1 where alloc: "superblock_block_allocate s sb = Inr (blk, s1)"
      and bc: "block_count (sblock s1 sb) = block_count (sblock s sb)"
      and step: "if blk = BLOCK_INVALID then s1 = s
                 else \<exists>fl'. superblock_inv s1 sb (blk # live) fl'"
      using superblock_block_allocate_inv [OF Cons.prems(1)] by blast
    define live1 where "live1 = (if blk = BLOCK_INVALID then live else blk # live)"
    have run: "run_ops sb (a # ops) s live = run_ops sb ops s1 live1"
      by (simp add: Allocate alloc live1_def)
    obtain fl1 where "superblock_inv s1 sb live1 fl1"
      using step Cons.prems(1) by (auto simp: live1_def split: if_splits)
    then show ?thesis
      using Cons.IH [of s1 live1 fl1] Cons.prems(2) bc by (simp add: run)
  next
    case (Free x)
    then have live: "x \<in> set live"
      using Cons.prems(2) by (auto split: if_splits)
    obtain s1 where free: "superblock_block_free s sb x = Inr s1"
      and bc: "block_count (sblock s1 sb) = block_count (sblock s sb)"
      and inv1: "superblock_inv s1 sb (remove1 x live) (x # fl)"
      using superblock_block_free_inv [OF Cons.prems(1) live] by blast
    have run: "run_ops sb (a # ops) s live = run_ops sb ops s1 (remove1 x live)"
      by (simp add: Free free live)
    show ?thesis
      using Cons.IH [OF inv1] Cons.prems(2) bc by (simp add: run)
  qed
qed

subsection \<open>Initialisation\<close>

lemma superblock_init_example:
  "superblock_init 4096 state0 4096 1 3 = Inr example_fresh"
  by (simp add: superblock_init_def block_size_loop_eq superblock_size_def
      sizeof_superblock_t_def example_fresh_def example_superblock_def state0_def
      superblock0_def NULL_def)

lemma heap_init_eq:
  "heap_init h = h\<lparr>lock := Unlocked, mem_used := 0, mem_allocated := 0, index := 3,
     bins := (bins h)(0 := NULL, 1 := NULL, 2 := NULL, 3 := NULL)\<rparr>"
  by (simp add: heap_init_def heap_init_loop.simps ALLOC_HOARD_FULLNESS_GROUPS_def
      nat_numeral_diff_1 numeral_2_eq_2 numeral_3_eq_3)

lemma context_size_example: "context_size 4096 1 = Inr 4096"
  by (simp add: context_size_def util_pagealigned_def sizeof_context_t_def sizeof_heap_t_def
      ALLOC_HOARD_HEAP_CPU_FACTOR_def Let_def)

lemma context_init_loop_heap_count [simp]:
  "heap_count (context_init_loop i c) = heap_count c"
  by (induction i c rule: context_init_loop.induct)
    (simp add: context_init_loop.simps)

lemma context_init_loop_blocks_base [simp]:
  "blocks_base (context_init_loop i c) = blocks_base c"
  by (induction i c rule: context_init_loop.induct)
    (simp add: context_init_loop.simps)

lemma context_init_loop_heap_table:
  "0 \<le> i \<Longrightarrow> heap_table (context_init_loop i c) k =
     (if i \<le> int k \<and> int k < heap_count c then heap_init (heap_table c k)
      else heap_table c k)"
proof (induction i c rule: context_init_loop.induct)
  case (1 i c)
  show ?case
  proof (cases "i < heap_count c")
    case True
    then show ?thesis
      using "1.IH" "1.prems" by (subst context_init_loop.simps) (auto simp: nat_eq_iff)
  next
    case False
    then show ?thesis
      by (subst context_init_loop.simps) auto
  qed
qed

lemma context_init_heap_table:
  assumes "context_init pagesize nproc base c = Inr c'" "0 < nproc"
  shows "heap_count c' = nproc * 2"
    and "heap_table c' k =
      (if int k < nproc * 2 then heap_init (heap_table c k) else heap_table c k)"
  using assms
  by (auto simp: context_init_def Let_def context_init_loop_heap_table
      ALLOC_HOARD_HEAP_CPU_FACTOR_def Suc_le_eq split: sum.splits)

lemma mm_init_example:
  "\<exists>s. mm_init 4096 1 4096 state0 = Inr (0, s) \<and> heap_count (ctx s) = 2 \<and>
     heap_table (ctx s) 1 = heap_init heap0 \<and> sblock s = sblock state0"
  by (simp add: mm_init_def context_size_example context_init_def context_init_loop.simps
      ALLOC_HOARD_HEAP_CPU_FACTOR_def Let_def NULL_def state0_def)

subsection \<open>Heap selection and the search for a superblock\<close>

lemma context_heap_index:
  assumes "0 < heap_count c" "heap_count c < 2 ^ 31"
  shows "context_heap c threadid = Inr (1 + unat threadid mod nat (heap_count c))"
proof -
  define n where "n = (word_of_int (heap_count c) :: 32 word)"
  have "heap_count c < 2 ^ 32"
    using assms(2) by simp
  then have un: "unat n = nat (heap_count c)"
    using assms(1) by (simp add: n_def unat_eq_nat_uint uint_word_of_int take_bit_int_eq_self)
  then have n0: "n \<noteq> 0"
    using assms(1) by (auto simp: unat_eq_0 [symmetric] simp del: unat_eq_0)
  have "unat (threadid mod n) = unat threadid mod unat n"
    by (rule unat_mod)
  moreover have "unat threadid mod unat n < unat n"
    using un assms(1) by simp
  moreover have "unat n < 2 ^ 31"
    using un assms by simp
  ultimately have "1 + unat (threadid mod n) < 2 ^ 32"
    by simp
  then have "unat (1 + threadid mod n) = 1 + unat (threadid mod n)"
    by (simp add: unat_word_ariths)
  then show ?thesis
    using n0 un by (simp add: context_heap_def n_def [symmetric] unat_mod)
qed

lemma util_sizeclass_8: "util_sizeclass 8 = 3"
  by code_simp

lemma context_malloc_bin_NULL: "context_malloc_bin sbs sizecls NULL = Some NULL"
  by (simp add: context_malloc_bin.simps)

lemma context_malloc_bin_match:
  "context_malloc_bin sbs sizecls first = Some sb \<Longrightarrow>
   sb \<noteq> NULL \<longrightarrow>
     size_class (sbs sb) = sizecls \<and> block_used (sbs sb) < block_count (sbs sb)"
proof (induction rule: context_malloc_bin.raw_induct [rotated, consumes 1])
  case (1 f sbs sizecls first sb)
  then show ?case
    by (auto split: if_splits)
qed

lemma context_malloc_scan_match:
  "context_malloc_scan s hp sizecls grp = Some (Inr sb) \<Longrightarrow> sb \<noteq> NULL \<Longrightarrow>
   size_class (sblock s sb) = sizecls \<and> block_used (sblock s sb) < block_count (sblock s sb)"
proof (induction s hp sizecls grp rule: context_malloc_scan.induct)
  case (1 s hp sizecls grp)
  show ?case
  proof (cases "1 \<le> grp")
    case False
    with "1.prems" show ?thesis
      by (simp add: context_malloc_scan.simps [of s hp sizecls grp])
  next
    case True
    with "1.prems" obtain first sb' where
      rd: "heap_bins_read (heap_table (ctx s) hp) grp = Inr first"
      and bin: "context_malloc_bin (sblock s) sizecls first = Some sb'"
      and res: "(if sb' \<noteq> NULL then Some (Inr sb')
                 else context_malloc_scan s hp sizecls (grp - 1)) = Some (Inr sb)"
      by (auto simp: context_malloc_scan.simps [of s hp sizecls grp]
          split: sum.splits option.splits)
    show ?thesis
    proof (cases "sb' = NULL")
      case True
      with res have "context_malloc_scan s hp sizecls (grp - 1) = Some (Inr sb)"
        by simp
      then show ?thesis
        using \<open>1 \<le> grp\<close> rd bin True "1.prems"(2) by (intro "1.IH") simp_all
    next
      case False
      with res have "sb' = sb"
        by simp
      with bin "1.prems"(2) show ?thesis
        using context_malloc_bin_match by blast
    qed
  qed
qed

lemma context_malloc_scan_out_of_bounds:
  "context_malloc_scan s hp sizecls ALLOC_HOARD_FULLNESS_GROUPS = Some (Inl OutOfBounds)"
  by (simp add: context_malloc_scan.simps [of s hp sizecls 4]
      heap_bins_read_def ALLOC_HOARD_FULLNESS_GROUPS_def)

lemma context_malloc_scan_ignores_bin_0:
  assumes "\<And>g. 1 \<le> g \<Longrightarrow>
      heap_bins_read (heap_table (ctx s') hp) g = heap_bins_read (heap_table (ctx s) hp) g"
    and "sblock s' = sblock s"
  shows "context_malloc_scan s' hp sizecls grp = context_malloc_scan s hp sizecls grp"
proof (induction "nat grp" arbitrary: grp)
  case 0
  then have "\<not> 1 \<le> grp"
    by simp
  then show ?case
    by (simp add: context_malloc_scan.simps [of _ hp sizecls grp])
next
  case (Suc n)
  then have grp: "1 \<le> grp" and n: "n = nat (grp - 1)"
    by simp_all
  have rest: "context_malloc_scan s' hp sizecls (grp - 1) =
              context_malloc_scan s hp sizecls (grp - 1)"
    using n by (rule Suc.hyps(1))
  show ?case
    using grp rest assms(1) [OF grp]
    by (simp add: context_malloc_scan.simps [of _ hp sizecls grp] assms(2)
        split: sum.splits option.splits)
qed

lemma context_malloc_scan_empty:
  assumes "\<And>g. bins (heap_table (ctx s) hp) g = NULL"
  shows "grp < ALLOC_HOARD_FULLNESS_GROUPS \<Longrightarrow>
         context_malloc_scan s hp sizecls grp = Some (Inr NULL)"
proof (induction "nat grp" arbitrary: grp)
  case 0
  then have "\<not> 1 \<le> grp"
    by simp
  then show ?case
    by (simp add: context_malloc_scan.simps [of _ hp sizecls grp])
next
  case (Suc n)
  then have grp: "1 \<le> grp" and n: "n = nat (grp - 1)"
    by simp_all
  have "context_malloc_scan s hp sizecls (grp - 1) = Some (Inr NULL)"
    using n Suc.prems by (intro Suc.hyps(1)) simp_all
  then show ?case
    using grp Suc.prems assms
    by (simp add: context_malloc_scan.simps [of _ hp sizecls grp] heap_bins_read_def
        context_malloc_bin_NULL)
qed

lemma context_malloc_finish_missing_return:
  "context_malloc_finish s glob NULL = Inl MissingReturn"
  by (simp add: context_malloc_finish_def)

lemma context_malloc_out_of_bounds:
  "context_malloc s hp sz = Some (Inl OutOfBounds)"
  by (simp add: context_malloc_def context_malloc_scan_out_of_bounds)

lemma mm_malloc_out_of_bounds:
  assumes "sz \<le> superblock_size pagesize div 2"
    and "context_heap (ctx s) self = Inr hp"
    and "lock (heap_table (ctx s) hp) = Unlocked"
  shows "mm_malloc pagesize sys_malloc self s sz = Some (Inl OutOfBounds)"
  using assms
  by (simp add: mm_malloc_def pthread_mutex_lock_def context_malloc_out_of_bounds
      not_less [symmetric])

subsection \<open>Runs on the example superblock\<close>

lemmas block_op_defs =
  superblock_block_allocate_def superblock_block_free_def superblock_freelist_pop_def
  superblock_freelist_push_def superblock_block_data_def heap_mem_used_update_def
  sizeof_superblock_t_def load32_store32_same BLOCK_INVALID_def word_le_def word_less_def

lemmas example_defs =
  example_fresh_def example_superblock_def state0_def heap0_def superblock0_def

lemma run_ops_example_reuse:
  "\<exists>s. run_ops 4096 [Allocate, Allocate, Free 0, Allocate] example_fresh [] =
     Finished (s, [0, 1])"
  by (simp add: block_op_defs example_defs Let_def)

lemma run_ops_example_churn:
  "\<exists>s. run_ops 4096 [Allocate, Free 0, Allocate, Allocate, Free 1] example_fresh [] =
     Finished (s, [0])"
  by (simp add: block_op_defs example_defs Let_def)

lemma run_ops_reaches_example_reuse:
  "run_ops 4096 [Allocate, Allocate, Allocate, Free 0] example_fresh [] =
     Finished (example_reuse, [2, 1])"
  by (simp add: block_op_defs example_defs example_reuse_def Let_def)

lemma run_ops_reaches_example_full:
  "\<exists>s. superblock_init 4096 state0 4096 1 11 = Inr s \<and>
     run_ops 4096 [Allocate] s [] = Finished (example_full, [0])"
  by (simp add: superblock_init_def block_size_loop_eq superblock_size_def block_op_defs
      example_defs example_full_def Let_def NULL_def)

section \<open>The claims\<close>

text \<open>
  Claim C1. For every requested size \<open>s > 0\<close>, \<^verbatim>\<open>util_sizeclass\<close> returns a class
  \<open>c \<ge> 2\<close> with \<open>2 ^ c \<ge> s\<close> that is the least such class, and it is monotonic
  in \<open>s\<close>. Size 5 maps to class 3, for which \<^verbatim>\<open>superblock_init\<close> computes the block
  size 8, and size 1 maps to class 2 with block size 4.
\<close>

theorem util_sizeclass_minimal_class:
  "0 < s \<Longrightarrow>
   2 \<le> util_sizeclass s \<and> unat s \<le> 2 ^ nat (util_sizeclass s) \<and>
   (\<forall>c. 2 \<le> c \<and> unat s \<le> 2 ^ nat c \<longrightarrow> util_sizeclass s \<le> c) \<and>
   (\<forall>t. s \<le> t \<longrightarrow> util_sizeclass s \<le> util_sizeclass t) \<and>
   util_sizeclass 5 = 3 \<and> block_size_loop 0 (util_sizeclass 5) 1 = 8 \<and>
   util_sizeclass 1 = 2 \<and> block_size_loop 0 (util_sizeclass 1) 1 = 4"
  using util_sizeclass_char [of s] util_sizeclass_minimal [of _ s] util_sizeclass_mono [of s]
  by (simp add: util_sizeclass_5 util_sizeclass_1 block_size_loop_eq)

theorem util_sizeclass_minimal_class_witness:
  "0 < (5 :: size_t) \<and>
   2 \<le> util_sizeclass 5 \<and> unat (5 :: size_t) \<le> 2 ^ nat (util_sizeclass 5) \<and>
   util_sizeclass 5 \<le> 3 \<and> util_sizeclass 5 \<le> util_sizeclass 8"
proof -
  have pos: "0 < (5 :: size_t)"
    by simp
  have fits: "(2 :: int) \<le> 3 \<and> unat (5 :: size_t) \<le> 2 ^ nat 3"
    by simp
  have le: "(5 :: size_t) \<le> 8"
    by simp
  show ?thesis
    using util_sizeclass_minimal_class [OF pos] pos fits le by blast
qed

text \<open>
  Claim C2. On a superblock whose counters are in range (\<^verbatim>\<open>block_used\<close> at most
  \<^verbatim>\<open>block_count\<close>, a free-list head that is a block of the superblock, a watermark
  that is not the sentinel), \<^verbatim>\<open>superblock_block_allocate\<close> returns \<^verbatim>\<open>BLOCK_INVALID\<close>
  exactly when \<^verbatim>\<open>block_used = block_count\<close>. Otherwise it returns the free-list head
  when the free list is not empty, and else the watermark, which it advances by one;
  in both cases \<^verbatim>\<open>block_used\<close> grows by one and the owning heap's \<^verbatim>\<open>mem_used\<close> by
  \<^verbatim>\<open>block_size\<close>.
\<close>

theorem superblock_block_allocate_spec:
  assumes "block_used (sblock s sb) \<le> block_count (sblock s sb)"
    and "next_free (sblock s sb) \<noteq> BLOCK_INVALID \<longrightarrow>
         scast (next_free (sblock s sb)) < block_count (sblock s sb)"
    and "next_block (sblock s sb) \<noteq> BLOCK_INVALID"
  shows "\<exists>blk s'. superblock_block_allocate s sb = Inr (blk, s') \<and>
     (blk = BLOCK_INVALID \<longleftrightarrow> block_used (sblock s sb) = block_count (sblock s sb)) \<and>
     (block_used (sblock s sb) \<noteq> block_count (sblock s sb) \<longrightarrow>
        blk = (if next_free (sblock s sb) \<noteq> BLOCK_INVALID then next_free (sblock s sb)
               else next_block (sblock s sb)) \<and>
        next_block (sblock s' sb) =
          (if next_free (sblock s sb) \<noteq> BLOCK_INVALID then next_block (sblock s sb)
           else next_block (sblock s sb) + 1) \<and>
        block_used (sblock s' sb) = block_used (sblock s sb) + 1 \<and>
        mem_used (heap_table (ctx s') (heap (sblock s sb))) =
          mem_used (heap_table (ctx s) (heap (sblock s sb))) + block_size (sblock s sb))"
proof (cases "block_used (sblock s sb) = block_count (sblock s sb)")
  case True
  then show ?thesis
    using superblock_block_allocate_at_capacity [of s sb] by simp
next
  case False
  with assms(1) have room: "block_used (sblock s sb) < block_count (sblock s sb)"
    by simp
  show ?thesis
  proof (cases "next_free (sblock s sb) = BLOCK_INVALID")
    case True
    then show ?thesis
      using superblock_block_allocate_fresh [OF room True] False assms(3) by auto
  next
    case nf: False
    with assms(2) have "scast (next_free (sblock s sb)) < block_count (sblock s sb)"
      by simp
    then show ?thesis
      using superblock_block_allocate_reuse [OF room nf] False nf by auto
  qed
qed

theorem superblock_block_allocate_spec_witness:
  "block_used (sblock example_reuse 4096) \<le> block_count (sblock example_reuse 4096) \<and>
   next_free (sblock example_reuse 4096) \<noteq> BLOCK_INVALID \<and>
   scast (next_free (sblock example_reuse 4096)) < block_count (sblock example_reuse 4096) \<and>
   next_block (sblock example_reuse 4096) \<noteq> BLOCK_INVALID \<and>
   (\<exists>s'. superblock_block_allocate example_reuse 4096 = Inr (0, s') \<and>
      next_block (sblock s' 4096) = 3 \<and> block_used (sblock s' 4096) = 3 \<and>
      mem_used (heap_table (ctx s') 1) = 24)"
proof -
  have h1: "block_used (sblock example_reuse 4096) \<le> block_count (sblock example_reuse 4096)"
    by (simp add: example_reuse_def example_superblock_def)
  have h2: "next_free (sblock example_reuse 4096) \<noteq> BLOCK_INVALID \<longrightarrow>
      scast (next_free (sblock example_reuse 4096)) < block_count (sblock example_reuse 4096)"
    by (simp add: example_reuse_def example_superblock_def)
  have h3: "next_block (sblock example_reuse 4096) \<noteq> BLOCK_INVALID"
    by (simp add: example_reuse_def example_superblock_def BLOCK_INVALID_def)
  have f: "next_free (sblock example_reuse 4096) = 0" "next_block (sblock example_reuse 4096) = 3"
    "block_used (sblock example_reuse 4096) = 2" "block_count (sblock example_reuse 4096) = 504"
    "heap (sblock example_reuse 4096) = 1" "block_size (sblock example_reuse 4096) = 8"
    "mem_used (heap_table (ctx example_reuse) (Suc 0)) = 16"
    by (simp_all add: example_reuse_def example_superblock_def heap0_def)
  show ?thesis
    using superblock_block_allocate_spec [OF h1 h2 h3] h1 h2 h3
    by (auto simp: f BLOCK_INVALID_def)
qed

text \<open>
  Claim C3 says that the search of \<^verbatim>\<open>context_malloc\<close> visits the bins
  \<open>GROUPS - 1\<close> down to \<open>0\<close>. The loop of the source starts at \<open>GROUPS\<close> and stops
  after \<open>1\<close>. On the heap of \<open>example_binned\<close>, whose bin 0 holds a superblock of the
  requested class with free blocks, the search as written reads \<^verbatim>\<open>bins[4]\<close>, past the
  array, and its remainder from \<open>GROUPS - 1\<close> ends without that superblock.
\<close>

theorem scan_skips_bin_0:
  "heap_bins_read (heap_table (ctx example_binned) 1) 0 = Inr 4096 \<and>
   size_class (sblock example_binned 4096) = util_sizeclass 8 \<and>
   block_used (sblock example_binned 4096) < block_count (sblock example_binned 4096) \<and>
   context_malloc_scan example_binned 1 (util_sizeclass 8) ALLOC_HOARD_FULLNESS_GROUPS =
     Some (Inl OutOfBounds) \<and>
   context_malloc_scan example_binned 1 (util_sizeclass 8) (ALLOC_HOARD_FULLNESS_GROUPS - 1) =
     Some (Inr NULL)"
  by (simp add: context_malloc_scan_out_of_bounds util_sizeclass_8 heap_bins_read_def
      ALLOC_HOARD_FULLNESS_GROUPS_def context_malloc_scan.simps context_malloc_bin_NULL
      example_binned_def example_fresh_def example_superblock_def state0_def heap0_def)

text \<open>
  Claim C4 says that every heap \<^verbatim>\<open>context_heap\<close> returns was initialised by
  \<^verbatim>\<open>context_init\<close>. With one processor the heap count is 2 and \<^verbatim>\<open>context_init\<close>
  initialises the slots 0 and 1, while \<^verbatim>\<open>context_heap\<close> sends the thread
  identities 1 and 3 to slot 2, which \<^verbatim>\<open>context_init\<close> leaves as it found it.
\<close>

theorem context_heap_beyond_initialized:
  "\<exists>c'. context_init 4096 1 base c = Inr c' \<and> heap_count c' = 2 \<and>
     heap_table c' 0 = heap_init (heap_table c 0) \<and>
     heap_table c' 1 = heap_init (heap_table c 1) \<and>
     context_heap c' 1 = Inr 2 \<and> context_heap c' 3 = Inr 2 \<and>
     heap_table c' 2 = heap_table c 2"
  by (simp add: context_init_def context_size_example context_init_loop.simps
      ALLOC_HOARD_HEAP_CPU_FACTOR_def Let_def context_heap_def)

text \<open>
  Claim C5 says that \<^verbatim>\<open>mm_malloc\<close> returns a null pointer when no superblock can be
  used. After \<^verbatim>\<open>mm_init\<close> on zeroed memory no heap has a superblock. A request of 8
  bytes then reads \<^verbatim>\<open>bins[4]\<close>, past the array; the bins 3 to 1 hold nothing; and
  with no superblock found \<^verbatim>\<open>context_malloc\<close> ends without a \<^verbatim>\<open>return\<close>. No path
  yields the null pointer.
\<close>

theorem malloc_without_superblock:
  "\<exists>s. mm_init 4096 1 4096 state0 = Inr (0, s) \<and>
     mm_malloc 4096 (\<lambda>sz. NULL) 0 s 8 = Some (Inl OutOfBounds) \<and>
     context_malloc_scan s 1 (util_sizeclass 8) (ALLOC_HOARD_FULLNESS_GROUPS - 1) =
       Some (Inr NULL) \<and>
     context_malloc_finish s (context_globalheap (ctx s)) NULL = Inl MissingReturn"
proof -
  obtain s where init: "mm_init 4096 1 4096 state0 = Inr (0, s)"
    and hc: "heap_count (ctx s) = 2"
    and h1: "heap_table (ctx s) 1 = heap_init heap0"
    using mm_init_example by blast
  have "(8 :: size_t) \<le> superblock_size 4096 div 2"
    by (simp add: superblock_size_def)
  moreover have "context_heap (ctx s) 0 = Inr 1"
    by (simp add: context_heap_def hc)
  moreover have "lock (heap_table (ctx s) 1) = Unlocked"
    using h1 by (simp add: heap_init_eq)
  ultimately have "mm_malloc 4096 (\<lambda>sz. NULL) 0 s 8 = Some (Inl OutOfBounds)"
    by (rule mm_malloc_out_of_bounds)
  moreover have "bins (heap_table (ctx s) 1) g = NULL" for g
    using h1 by (simp add: heap_init_eq heap0_def)
  then have "context_malloc_scan s 1 (util_sizeclass 8) (ALLOC_HOARD_FULLNESS_GROUPS - 1) =
      Some (Inr NULL)"
    by (rule context_malloc_scan_empty) simp
  ultimately show ?thesis
    using init by (simp add: context_malloc_finish_missing_return)
qed

text \<open>
  Claim C6. Take a superblock initialised for a size class of at least 2 whose block
  indices fit the 32-bit signed \<^verbatim>\<open>blockptr_t\<close>, and run any sequence of block
  allocations and releases in which every released index is live. The run finishes
  without a fault, the live indices are pairwise distinct, and each of them is below
  \<^verbatim>\<open>block_count\<close>. As the sequence is arbitrary, this holds after every operation.
\<close>

theorem live_blocks_unique:
  assumes init: "superblock_init pagesize s0 sb hp cls = Inr s1"
    and cls: "2 \<le> cls"
    and bc31: "block_count (sblock s1 sb) < 2 ^ 31"
    and frees: "run_ops sb ops s1 [] \<noteq> NotLive"
  shows "\<exists>s live. run_ops sb ops s1 [] = Finished (s, live) \<and> distinct live \<and>
     list_all (\<lambda>blk. scast blk < block_count (sblock s sb)) live \<and>
     block_count (sblock s sb) = block_count (sblock s1 sb)"
proof -
  have "superblock_inv s1 sb [] []"
    using init cls bc31 by (rule superblock_init_inv)
  then obtain s live fl where run: "run_ops sb ops s1 [] = Finished (s, live)"
    and inv: "superblock_inv s sb live fl"
    and bc: "block_count (sblock s sb) = block_count (sblock s1 sb)"
    using run_ops_inv [OF _ frees] by blast
  note I = inv [unfolded superblock_inv_def]
  have "scast blk < block_count (sblock s sb)" if "blk \<in> set live" for blk
  proof -
    have nb: "unat blk < unat (next_block (sblock s sb))"
      using I that by (simp add: list_all_iff)
    then have "unat blk < 2 ^ 31"
      using I by simp
    then show ?thesis
      using nb I by (simp add: scast_less_iff)
  qed
  then have "list_all (\<lambda>blk. scast blk < block_count (sblock s sb)) live"
    by (simp add: list_all_iff)
  moreover have "distinct live"
    using I by simp
  ultimately show ?thesis
    using run bc by simp
qed

theorem live_blocks_unique_witness:
  "superblock_init 4096 state0 4096 1 3 = Inr example_fresh \<and> (2 :: int) \<le> 3 \<and>
   block_count (sblock example_fresh 4096) < 2 ^ 31 \<and>
   run_ops 4096 [Allocate, Allocate, Free 0, Allocate] example_fresh [] \<noteq> NotLive \<and>
   (\<exists>s live. run_ops 4096 [Allocate, Allocate, Free 0, Allocate] example_fresh [] =
        Finished (s, live) \<and> distinct live \<and>
      list_all (\<lambda>blk. scast blk < block_count (sblock s 4096)) live \<and>
      block_count (sblock s 4096) = block_count (sblock example_fresh 4096))"
proof -
  have bc31: "block_count (sblock example_fresh 4096) < 2 ^ 31"
    by (simp add: example_fresh_def example_superblock_def)
  have frees: "run_ops 4096 [Allocate, Allocate, Free 0, Allocate] example_fresh [] \<noteq> NotLive"
    using run_ops_example_reuse by auto
  show ?thesis
    using live_blocks_unique [OF superblock_init_example _ bc31 frees]
      superblock_init_example bc31 frees by simp
qed

text \<open>
  Claim C7. Take a superblock initialised for a size class of at least 2 whose block
  indices fit the 32-bit signed \<^verbatim>\<open>blockptr_t\<close>, and run any sequence of block
  allocations and releases in which every released index is live. The run finishes
  without a fault and ends with \<open>0 \<le> block_used \<le> block_count\<close>. As the sequence is
  arbitrary, the bound holds after every operation.
\<close>

theorem block_used_bounded:
  assumes init: "superblock_init pagesize s0 sb hp cls = Inr s1"
    and cls: "2 \<le> cls"
    and bc31: "block_count (sblock s1 sb) < 2 ^ 31"
    and frees: "run_ops sb ops s1 [] \<noteq> NotLive"
  shows "\<exists>s live. run_ops sb ops s1 [] = Finished (s, live) \<and>
     0 \<le> block_used (sblock s sb) \<and> block_used (sblock s sb) \<le> block_count (sblock s sb)"
proof -
  have "superblock_inv s1 sb [] []"
    using init cls bc31 by (rule superblock_init_inv)
  then obtain s live fl where run: "run_ops sb ops s1 [] = Finished (s, live)"
    and inv: "superblock_inv s sb live fl"
    using run_ops_inv [OF _ frees] by blast
  note I = inv [unfolded superblock_inv_def]
  have "unat (block_used (sblock s sb)) \<le> unat (block_count (sblock s sb))"
    using I by simp
  then show ?thesis
    using run by (simp add: word_le_nat_alt)
qed

theorem block_used_bounded_witness:
  "superblock_init 4096 state0 4096 1 3 = Inr example_fresh \<and> (2 :: int) \<le> 3 \<and>
   block_count (sblock example_fresh 4096) < 2 ^ 31 \<and>
   run_ops 4096 [Allocate, Free 0, Allocate, Allocate, Free 1] example_fresh [] \<noteq> NotLive \<and>
   (\<exists>s live. run_ops 4096 [Allocate, Free 0, Allocate, Allocate, Free 1] example_fresh [] =
        Finished (s, live) \<and>
      0 \<le> block_used (sblock s 4096) \<and>
      block_used (sblock s 4096) \<le> block_count (sblock s 4096))"
proof -
  have bc31: "block_count (sblock example_fresh 4096) < 2 ^ 31"
    by (simp add: example_fresh_def example_superblock_def)
  have frees: "run_ops 4096 [Allocate, Free 0, Allocate, Allocate, Free 1] example_fresh [] \<noteq>
      NotLive"
    using run_ops_example_churn by auto
  show ?thesis
    using block_used_bounded [OF superblock_init_example _ bc31 frees]
      superblock_init_example bc31 frees by simp
qed

text \<open>
  Claim C8. On a freshly initialised superblock with room for two blocks of at least
  four bytes, the sequence allocate A, allocate B, free A, allocate C succeeds, C is the
  index A and not the watermark, which stays where it was, B is a different index, and
  every byte of B's block is after the sequence what it was when B was allocated.
\<close>

theorem freed_block_reused_first:
  assumes init: "superblock_init pagesize s0 sb hp cls = Inr s1"
    and bc2: "2 \<le> block_count (sblock s1 sb)"
    and bs4: "4 \<le> block_size (sblock s1 sb)"
  shows "\<exists>A B C s2 s3 s4 s5 pB.
     superblock_block_allocate s1 sb = Inr (A, s2) \<and> A \<noteq> BLOCK_INVALID \<and>
     superblock_block_allocate s2 sb = Inr (B, s3) \<and> B \<noteq> BLOCK_INVALID \<and>
     superblock_block_free s3 sb A = Inr s4 \<and>
     superblock_block_allocate s4 sb = Inr (C, s5) \<and>
     C = A \<and> C \<noteq> next_block (sblock s4 sb) \<and>
     next_block (sblock s5 sb) = next_block (sblock s4 sb) \<and>
     B \<noteq> A \<and> B \<noteq> C \<and>
     superblock_block_data (sblock s3 sb) sb B = Inr pB \<and>
     superblock_block_data (sblock s5 sb) sb B = Inr pB \<and>
     (\<forall>k. k < block_size (sblock s3 sb) \<longrightarrow> mem s5 (pB + k) = mem s3 (pB + k))"
proof -
  define b1 where "b1 = sblock s1 sb"
  define bs where "bs = block_size b1"
  define bc where "bc = block_count b1"
  note f = superblock_init_fields [OF init, folded b1_def]
  have ubc2: "2 \<le> unat bc"
    using bc2 by (simp add: bc_def b1_def word_le_nat_alt)
  have ubs4: "4 \<le> unat bs"
    using bs4 by (simp add: bs_def b1_def word_le_nat_alt)
  have bc_pos: "0 < bc" and bc_1: "1 < bc"
    using ubc2 by (simp_all add: word_less_nat_alt)
  have two: "(1 :: size_t) + 1 = 2" "(1 :: blockptr_t) + 1 = 2"
    by simp_all
  have no_wrap: "unat bs * 2 < 2 ^ 64"
  proof -
    have "unat bc = unat (superblock_size pagesize - sizeof_superblock_t) div unat bs"
      using f(5) by (simp add: bc_def bs_def unat_div)
    then have "unat bs * unat bc \<le> unat (superblock_size pagesize - sizeof_superblock_t)"
      by simp
    moreover have "unat bs * 2 \<le> unat bs * unat bc"
      using ubc2 by (intro mult_le_mono2)
    moreover have "unat (superblock_size pagesize - sizeof_superblock_t) < 2 ^ 64"
      using unsigned_less [of "superblock_size pagesize - sizeof_superblock_t", where ?'a = nat]
      by simp
    ultimately show ?thesis
      by linarith
  qed
  have g1: "block_used (sblock s1 sb) = 0" "next_block (sblock s1 sb) = 0"
    "next_free (sblock s1 sb) = BLOCK_INVALID" "block_size (sblock s1 sb) = bs"
    "block_count (sblock s1 sb) = bc"
    using f by (simp_all add: b1_def bs_def bc_def)
  \<comment> \<open>allocate A\<close>
  have "block_used (sblock s1 sb) < block_count (sblock s1 sb)"
    using bc_pos by (simp add: g1)
  from superblock_block_allocate_fresh [OF this g1(3)]
  obtain s2 where a1: "superblock_block_allocate s1 sb = Inr (next_block (sblock s1 sb), s2)"
    and sb2: "sblock s2 = (sblock s1)(sb := (sblock s1 sb)
       \<lparr>block_used := block_used (sblock s1 sb) + 1,
        next_block := next_block (sblock s1 sb) + 1\<rparr>)"
    and mem2: "mem s2 = mem s1"
    by blast
  have g2: "block_used (sblock s2 sb) = 1" "next_block (sblock s2 sb) = 1"
    "next_free (sblock s2 sb) = BLOCK_INVALID" "block_size (sblock s2 sb) = bs"
    "block_count (sblock s2 sb) = bc"
    by (simp_all add: sb2 g1)
  \<comment> \<open>allocate B\<close>
  have "block_used (sblock s2 sb) < block_count (sblock s2 sb)"
    using bc_1 by (simp add: g2)
  from superblock_block_allocate_fresh [OF this g2(3)]
  obtain s3 where a2: "superblock_block_allocate s2 sb = Inr (next_block (sblock s2 sb), s3)"
    and sb3: "sblock s3 = (sblock s2)(sb := (sblock s2 sb)
       \<lparr>block_used := block_used (sblock s2 sb) + 1,
        next_block := next_block (sblock s2 sb) + 1\<rparr>)"
    and mem3: "mem s3 = mem s2"
    by blast
  have g3: "block_used (sblock s3 sb) = 2" "next_block (sblock s3 sb) = 2"
    "next_free (sblock s3 sb) = BLOCK_INVALID" "block_size (sblock s3 sb) = bs"
    "block_count (sblock s3 sb) = bc"
    by (simp_all add: sb3 g2)
  \<comment> \<open>free A\<close>
  have "0 < block_used (sblock s3 sb)" "scast (0 :: blockptr_t) < block_count (sblock s3 sb)"
    using bc_pos by (simp_all add: g3)
  from superblock_block_free_effect [OF this]
  obtain s4 where fr: "superblock_block_free s3 sb 0 = Inr s4"
    and sb4: "sblock s4 = (sblock s3)(sb := (sblock s3 sb)
       \<lparr>next_free := 0, block_used := block_used (sblock s3 sb) - 1\<rparr>)"
    and mem4: "mem s4 = store32 (mem s3)
       (sb + sizeof_superblock_t + block_size (sblock s3 sb) * scast (0 :: blockptr_t))
       (next_free (sblock s3 sb))"
    by blast
  have g4: "block_used (sblock s4 sb) = 1" "next_block (sblock s4 sb) = 2"
    "next_free (sblock s4 sb) = 0" "block_size (sblock s4 sb) = bs"
    "block_count (sblock s4 sb) = bc"
    by (simp_all add: sb4 g3)
  have mem4': "mem s4 = store32 (mem s3) (sb + sizeof_superblock_t) BLOCK_INVALID"
    by (simp add: mem4 g3)
  \<comment> \<open>allocate C\<close>
  have "block_used (sblock s4 sb) < block_count (sblock s4 sb)"
    "next_free (sblock s4 sb) \<noteq> BLOCK_INVALID"
    "scast (next_free (sblock s4 sb)) < block_count (sblock s4 sb)"
    using bc_1 bc_pos by (simp_all add: g4 BLOCK_INVALID_def)
  from superblock_block_allocate_reuse [OF this]
  obtain s5 where a3: "superblock_block_allocate s4 sb = Inr (next_free (sblock s4 sb), s5)"
    and sb5: "sblock s5 = (sblock s4)(sb := (sblock s4 sb)
       \<lparr>block_used := block_used (sblock s4 sb) + 1,
        next_free := load32 (mem s4) (sb + sizeof_superblock_t +
           block_size (sblock s4 sb) * scast (next_free (sblock s4 sb)))\<rparr>)"
    and mem5: "mem s5 = mem s4"
    by blast
  have g5: "block_used (sblock s5 sb) = 2" "next_block (sblock s5 sb) = 2"
    "next_free (sblock s5 sb) = BLOCK_INVALID" "block_size (sblock s5 sb) = bs"
    "block_count (sblock s5 sb) = bc"
    by (simp_all add: sb5 g4 mem4' load32_store32_same)
  \<comment> \<open>the storage of B\<close>
  have "scast (1 :: blockptr_t) = (1 :: size_t)"
    by simp
  then have pB3: "superblock_block_data (sblock s3 sb) sb 1 = Inr (sb + sizeof_superblock_t + bs)"
    and pB5: "superblock_block_data (sblock s5 sb) sb 1 = Inr (sb + sizeof_superblock_t + bs)"
    using bc_1 by (simp_all add: superblock_block_data_def g3 g5)
  have keep: "mem s5 (sb + sizeof_superblock_t + bs + k) = mem s3 (sb + sizeof_superblock_t + bs + k)"
    if "k < bs" for k
  proof -
    have "unat k < unat bs"
      using that by (simp add: word_less_nat_alt)
    then have "unat bs + unat k < 2 ^ 64"
      using no_wrap by simp
    then have sum: "unat (bs + k) = unat bs + unat k"
      by (simp add: unat_word_ariths)
    have ne: "bs + k \<noteq> j" if "unat j < 4" for j
      using sum ubs4 that by auto
    have "bs + k \<noteq> 0" "bs + k \<noteq> 1" "bs + k \<noteq> 2" "bs + k \<noteq> 3"
      by (rule ne, simp)+
    then have "sb + sizeof_superblock_t + bs + k \<noteq> sb + sizeof_superblock_t"
      "sb + sizeof_superblock_t + bs + k \<noteq> sb + sizeof_superblock_t + 1"
      "sb + sizeof_superblock_t + bs + k \<noteq> sb + sizeof_superblock_t + 2"
      "sb + sizeof_superblock_t + bs + k \<noteq> sb + sizeof_superblock_t + 3"
      by (simp_all add: add.assoc)
    then show ?thesis
      by (simp add: mem5 mem4' store32_def)
  qed
  have "(0 :: blockptr_t) \<noteq> BLOCK_INVALID" "(1 :: blockptr_t) \<noteq> BLOCK_INVALID"
    by (simp_all add: BLOCK_INVALID_def)
  then show ?thesis
    using a1 a2 fr a3 pB3 pB5 keep
    by (intro exI [of _ 0] exI [of _ 1] exI [of _ s2] exI [of _ s3] exI [of _ s4]
        exI [of _ s5] exI [of _ "sb + sizeof_superblock_t + bs"])
      (simp add: g1 g2 g3 g4 g5)
qed

theorem freed_block_reused_first_witness:
  "superblock_init 4096 state0 4096 1 3 = Inr example_fresh \<and>
   2 \<le> block_count (sblock example_fresh 4096) \<and>
   4 \<le> block_size (sblock example_fresh 4096) \<and>
   (\<exists>A B C s2 s3 s4 s5 pB.
     superblock_block_allocate example_fresh 4096 = Inr (A, s2) \<and> A \<noteq> BLOCK_INVALID \<and>
     superblock_block_allocate s2 4096 = Inr (B, s3) \<and> B \<noteq> BLOCK_INVALID \<and>
     superblock_block_free s3 4096 A = Inr s4 \<and>
     superblock_block_allocate s4 4096 = Inr (C, s5) \<and>
     C = A \<and> C \<noteq> next_block (sblock s4 4096) \<and>
     next_block (sblock s5 4096) = next_block (sblock s4 4096) \<and>
     B \<noteq> A \<and> B \<noteq> C \<and>
     superblock_block_data (sblock s3 4096) 4096 B = Inr pB \<and>
     superblock_block_data (sblock s5 4096) 4096 B = Inr pB \<and>
     (\<forall>k. k < block_size (sblock s3 4096) \<longrightarrow> mem s5 (pB + k) = mem s3 (pB + k)))"
proof -
  have bc2: "2 \<le> block_count (sblock example_fresh 4096)"
    by (simp add: example_fresh_def example_superblock_def)
  have bs4: "4 \<le> block_size (sblock example_fresh 4096)"
    by (simp add: example_fresh_def example_superblock_def)
  show ?thesis
    using freed_block_reused_first [OF superblock_init_example bc2 bs4]
      superblock_init_example bc2 bs4 by (intro conjI)
qed

text \<open>
  Claim C9. \<^verbatim>\<open>mm_free\<close> is a no-op for every address: the context, every heap,
  every superblock and the block storage are as before.
\<close>

theorem mm_free_noop:
  "mm_free s ptr = s \<and> ctx (mm_free s ptr) = ctx s \<and>
   heap_table (ctx (mm_free s ptr)) = heap_table (ctx s) \<and>
   sblock (mm_free s ptr) = sblock s \<and> mem (mm_free s ptr) = mem s"
  by (simp add: mm_free_def)

text \<open>
  Claim C10. On a superblock with \<^verbatim>\<open>block_used = block_count\<close>,
  \<^verbatim>\<open>superblock_block_allocate\<close> returns \<^verbatim>\<open>BLOCK_INVALID\<close> and the state it returns is
  the state it was given: \<^verbatim>\<open>block_used\<close>, \<^verbatim>\<open>next_block\<close>, \<^verbatim>\<open>next_free\<close> and the owning
  heap's \<^verbatim>\<open>mem_used\<close> keep their values.
\<close>

theorem superblock_block_allocate_full:
  "block_used (sblock s sb) = block_count (sblock s sb) \<Longrightarrow>
   superblock_block_allocate s sb = Inr (BLOCK_INVALID, s) \<and>
   (\<forall>blk s'. superblock_block_allocate s sb = Inr (blk, s') \<longrightarrow>
      blk = BLOCK_INVALID \<and>
      block_used (sblock s' sb) = block_used (sblock s sb) \<and>
      next_block (sblock s' sb) = next_block (sblock s sb) \<and>
      next_free (sblock s' sb) = next_free (sblock s sb) \<and>
      mem_used (heap_table (ctx s') (heap (sblock s sb))) =
        mem_used (heap_table (ctx s) (heap (sblock s sb))))"
  by (simp add: superblock_block_allocate_def)

theorem superblock_block_allocate_full_witness:
  "block_used (sblock example_full 4096) = block_count (sblock example_full 4096) \<and>
   superblock_block_allocate example_full 4096 = Inr (BLOCK_INVALID, example_full)"
proof -
  have h: "block_used (sblock example_full 4096) = block_count (sblock example_full 4096)"
    by (simp add: example_full_def example_superblock_def)
  show ?thesis
    using superblock_block_allocate_full [OF h] h by simp
qed

end
